theory Spec2Isabelle
  imports Complex_Main "HOL-Library.AList"
begin

chapter \<open>The model\<close>

section \<open>Numbers (IEEE doubles that hold integers)\<close>

text \<open>
  A JavaScript number is an IEEE double. The coordinates of this program start from
  integers, letters and digits and go through sums, differences, products and one
  division under \<open>Math.floor\<close>, so a coordinate is a double that holds an integer. It
  is modelled as that integer (type \<open>int\<close>), and every arithmetic result is the exact
  result rounded to the nearest double, written out with \<open>toDouble\<close>. Every integer
  of magnitude up to \<open>2^53\<close> is a double. A larger one is a double when its 53 leading
  bits hold all its non-zero bits; rounding goes to the nearest double, and on a tie to
  the one whose 53-bit significand is even.

  Two things are left out. The exponent range: a magnitude of \<open>2^1024\<close> and more (an
  address of more than 217 letters or 308 digits) is \<open>Infinity\<close> in JavaScript and a
  finite integer here. And the limits of the engine that runs the program (call stack,
  array length, memory): the counter of a loop over a range is exact here, where the
  counter of the source stops advancing at \<open>2^53\<close>, a row or column that no loop
  reaches within those limits.
\<close>

text \<open>The number of binary digits of a positive integer.\<close>

function bitLength :: "int \<Rightarrow> nat" where
  "bitLength n = (if n \<le> 0 then 0 else Suc (bitLength (n div 2)))"
  by pat_completeness auto
termination
  by (relation "measure nat") auto

declare bitLength.simps [simp del]

text \<open>The integer nearest to \<open>num / den\<close>, the even one of two (for \<open>0 \<le> num\<close> and
  \<open>0 < den\<close>).\<close>

definition roundHalfEven :: "int \<Rightarrow> int \<Rightarrow> int" where
  "roundHalfEven num den =
     (let q = num div den; r = num mod den
      in if den < 2 * r \<or> (2 * r = den \<and> odd q) then q + 1 else q)"

text \<open>The double nearest to an integer: with \<open>e\<close> bits beyond the 53 of the
  significand, the multiple of \<open>2^e\<close> that \<open>roundHalfEven\<close> picks.\<close>

definition toDouble :: "int \<Rightarrow> int" where
  "toDouble n =
     (if \<bar>n\<bar> < 2 ^ 53 then n
      else (let e = bitLength \<bar>n\<bar> - 53
            in sgn n * (roundHalfEven \<bar>n\<bar> (2 ^ e) * 2 ^ e)))"

text \<open>
  \<open>Math.floor(n / d)\<close> for a positive divisor: the quotient is rounded to a double
  before \<open>Math.floor\<close> sees it. \<open>binaryShift a d\<close> is the \<open>j\<close> with
  \<open>2^52 \<le> a / d * 2^j < 2^53\<close>, so that the double nearest to \<open>a / d\<close> is
  \<open>roundHalfEven\<close> of the scaled quotient, scaled back.
\<close>

definition binaryShift :: "int \<Rightarrow> int \<Rightarrow> int" where
  "binaryShift a d =
     (let j = 53 + int (bitLength d) - int (bitLength a)
      in if 0 \<le> j then (if a * 2 ^ nat j < 2 ^ 53 * d then j else j - 1)
         else (if a < 2 ^ 53 * (d * 2 ^ nat (- j)) then j else j - 1))"

definition floorDiv :: "int \<Rightarrow> int \<Rightarrow> int" where
  "floorDiv n d =
     (if n = 0 then 0
      else (let j = binaryShift \<bar>n\<bar> d
            in if 0 \<le> j then (sgn n * roundHalfEven (\<bar>n\<bar> * 2 ^ nat j) d) div 2 ^ nat j
               else sgn n * roundHalfEven \<bar>n\<bar> (d * 2 ^ nat (- j)) * 2 ^ nat (- j)))"

text \<open>
  Number to string (\<open>toString\<close>, template literals, string concatenation) for a double
  that holds an integer. Up to \<open>2^53\<close> the string is the decimal numeral
  (\<open>digitsOf\<close>). Beyond, it is made of the shortest run of digits \<open>s\<close> (\<open>k\<close> of
  them, at most 17) with a power of ten \<open>10^(n-k)\<close> such that \<open>s * 10^(n-k)\<close> rounds
  to the number, the nearest such \<open>s\<close> when there are two: followed by zeros while
  \<open>n \<le> 21\<close>, in exponent form from \<open>10^21\<close> on.
\<close>

function digitsOf :: "int \<Rightarrow> string \<Rightarrow> string" where
  "digitsOf n acc =
     (if n < 10 then char_of (48 + n) # acc
      else digitsOf (n div 10) (char_of (48 + n mod 10) # acc))"
  by pat_completeness auto
termination
  by (relation "measure (\<lambda>(n, acc). nat n)") auto

declare digitsOf.simps [simp del]

definition candidates :: "int \<Rightarrow> nat \<Rightarrow> (int \<times> nat) list" where
  "candidates a k =
     concat (map (\<lambda>n. filter (\<lambda>(s, n). k \<le> n \<and> 10 ^ (k - 1) \<le> s \<and> s < 10 ^ k
                                      \<and> toDouble (s * 10 ^ (n - k)) = a)
                         [(a div 10 ^ (n - k), n), (a div 10 ^ (n - k) + 1, n)])
               [length (digitsOf a []), length (digitsOf a []) + 1])"

definition nearer :: "int \<Rightarrow> nat \<Rightarrow> int \<times> nat \<Rightarrow> int \<times> nat \<Rightarrow> bool" where
  "nearer a k c c' =
     (let d = \<bar>fst c * 10 ^ (snd c - k) - a\<bar>; d' = \<bar>fst c' * 10 ^ (snd c' - k) - a\<bar>
      in d < d' \<or> (d = d' \<and> even (fst c)))"

fun nearest :: "int \<Rightarrow> nat \<Rightarrow> int \<times> nat \<Rightarrow> (int \<times> nat) list \<Rightarrow> int \<times> nat" where
  "nearest a k c [] = c"
| "nearest a k c (c' # cs) = nearest a k (if nearer a k c c' then c else c') cs"

definition shortest :: "int \<Rightarrow> (int \<times> nat \<times> nat) option" where
  "shortest a =
     (case filter (\<lambda>k. candidates a k \<noteq> []) [1 ..< 18] of
        [] \<Rightarrow> None
      | k # _ \<Rightarrow> (case candidates a k of
                    [] \<Rightarrow> None
                  | c # cs \<Rightarrow> (case nearest a k c cs of (s, n) \<Rightarrow> Some (s, n, k))))"

definition digitsToString :: "int \<Rightarrow> string" where
  "digitsToString a =
     (if a \<le> 2 ^ 53 then digitsOf a []
      else case shortest a of
             None \<Rightarrow> digitsOf a []
           | Some (s, n, k) \<Rightarrow>
               if n \<le> 21 then digitsOf s [] @ replicate (n - k) CHR ''0''
               else (case digitsOf s [] of
                       [] \<Rightarrow> []
                     | d # ds \<Rightarrow> d # (if ds = [] then [] else CHR ''.'' # ds))
                    @ ''e+'' @ digitsOf (int (n - 1)) [])"

definition numToString :: "int \<Rightarrow> string" where
  "numToString i = (if i < 0 then CHR ''-'' # digitsToString (- i) else digitsToString i)"

text \<open>Bounds of the rounding, for the termination of the loop of \<open>colToLetter\<close> and
  for the exact range of the codec.\<close>

lemma bitLength_nonpos [simp]: "n \<le> 0 \<Longrightarrow> bitLength n = 0"
  by (subst bitLength.simps) simp

lemma bitLength_pos: "0 < n \<Longrightarrow> bitLength n = Suc (bitLength (n div 2))"
  by (subst bitLength.simps) simp

lemma bitLength_bounds: "0 < n \<Longrightarrow> 2 ^ (bitLength n - 1) \<le> n \<and> n < 2 ^ bitLength n"
proof (induction "nat n" arbitrary: n rule: less_induct)
  case less
  show ?case
  proof (cases "n div 2 = 0")
    case True
    then have "n = 1" using less.prems by presburger
    then show ?thesis by (simp add: bitLength_pos)
  next
    case False
    have "0 \<le> n div 2" using less.prems by simp
    then have p1: "0 < n div 2" using False by simp
    have "n div 2 < n" using less.prems by simp
    then have p2: "nat (n div 2) < nat n" using less.prems by simp
    from less.hyps[OF p2 p1] have
      ih: "2 ^ (bitLength (n div 2) - 1) \<le> n div 2" "n div 2 < 2 ^ bitLength (n div 2)" by auto
    have b: "bitLength n = Suc (bitLength (n div 2))" using less.prems by (rule bitLength_pos)
    have pos: "0 < bitLength (n div 2)" using p1 by (simp add: bitLength_pos)
    then obtain k where k: "bitLength (n div 2) = Suc k" by (cases "bitLength (n div 2)") auto
    have "(2::int) * 2 ^ k \<le> 2 * (n div 2)" using ih(1) k by simp
    also have "\<dots> \<le> n" by presburger
    finally have l: "2 ^ (bitLength n - 1) \<le> n" by (simp add: b k)
    have "n < 2 * (n div 2) + 2" by presburger
    also have "\<dots> \<le> 2 * 2 ^ bitLength (n div 2)" using ih(2) by simp
    finally have u: "n < 2 ^ bitLength n" by (simp add: b)
    show ?thesis using l u by simp
  qed
qed

lemma bitLength_le: "n < 2 ^ k \<Longrightarrow> bitLength n \<le> k"
proof (cases "n \<le> 0")
  case True
  then show ?thesis by simp
next
  case False
  assume a: "n < 2 ^ k"
  from False bitLength_bounds[of n] have "2 ^ (bitLength n - 1) \<le> n" by simp
  then have "(2::int) ^ (bitLength n - 1) < 2 ^ k" using a by linarith
  then have "bitLength n - 1 < k" by (rule power_less_imp_less_exp[rotated]) simp
  then show ?thesis by simp
qed

lemma bitLength_gt: "2 ^ k \<le> n \<Longrightarrow> k < bitLength n"
proof -
  assume a: "2 ^ k \<le> n"
  have "(0::int) < 2 ^ k" by simp
  then have "0 < n" using a by linarith
  then have "n < 2 ^ bitLength n" using bitLength_bounds by simp
  then have "(2::int) ^ k < 2 ^ bitLength n" using a by linarith
  then show ?thesis by (rule power_less_imp_less_exp[rotated]) simp
qed

lemma roundHalfEven_bounds:
  assumes "0 \<le> num" and "0 < den"
  shows "num div den \<le> roundHalfEven num den"
    and "roundHalfEven num den \<le> num div den + 1"
    and "2 * den * roundHalfEven num den \<le> 2 * num + den"
proof -
  show "num div den \<le> roundHalfEven num den"
    by (simp add: roundHalfEven_def Let_def)
  show "roundHalfEven num den \<le> num div den + 1"
    by (simp add: roundHalfEven_def Let_def)
  define q where "q = num div den"
  define r where "r = num mod den"
  define dq where "dq = den * q"
  have m: "0 \<le> r" "r < den" using assms(2) by (simp_all add: r_def)
  have n: "num = dq + r" by (simp add: dq_def q_def r_def)
  have u: "2 * den * (q + 1) = 2 * dq + 2 * den" by (simp add: dq_def algebra_simps)
  have d: "2 * den * q = 2 * dq" by (simp add: dq_def)
  have up: "den \<le> 2 * r \<Longrightarrow> 2 * den * (q + 1) \<le> 2 * num + den"
    unfolding u n by simp
  have dn: "2 * den * q \<le> 2 * num + den"
    unfolding d n using m assms(2) by simp
  have "roundHalfEven num den = q \<or> (roundHalfEven num den = q + 1 \<and> den \<le> 2 * r)"
    unfolding roundHalfEven_def Let_def q_def[symmetric] r_def[symmetric] by auto
  then show "2 * den * roundHalfEven num den \<le> 2 * num + den"
    using up dn by auto
qed

lemma toDouble_small: "\<bar>n\<bar> < 2 ^ 53 \<Longrightarrow> toDouble n = n"
  by (simp add: toDouble_def)

lemma bitLength_26: "bitLength 26 = 5"
  by (simp add: bitLength_pos)

lemma bitLength_eq: "2 ^ k \<le> n \<Longrightarrow> n < 2 ^ Suc k \<Longrightarrow> bitLength n = Suc k"
  using bitLength_gt[of k n] bitLength_le[of n "Suc k"] by simp

lemma toDouble_exact: "\<bar>n\<bar> \<le> 2 ^ 53 \<Longrightarrow> toDouble n = n"
proof (cases "\<bar>n\<bar> < 2 ^ 53")
  case True
  then show ?thesis by (rule toDouble_small)
next
  case False
  assume "\<bar>n\<bar> \<le> 2 ^ 53"
  with False have a: "\<bar>n\<bar> = 2 ^ 53" by simp
  have b: "bitLength 9007199254740992 = 54" by (simp add: bitLength_eq[of 53])
  have r: "roundHalfEven 9007199254740992 2 = 4503599627370496" by (simp add: roundHalfEven_def)
  have "toDouble n = sgn n * 2 ^ 53"
    using False by (simp add: toDouble_def a b r)
  also have "\<dots> = sgn n * \<bar>n\<bar>" by (simp only: a)
  also have "\<dots> = n" by (rule mult_sgn_abs)
  finally show ?thesis .
qed

lemma toDouble_large:
  assumes "2 ^ 53 \<le> a"
  shows "2 ^ 53 \<le> toDouble a" and "toDouble a \<le> 2 * a"
proof -
  define e where "e = bitLength \<bar>a\<bar> - 53"
  define P where "P = (2::int) ^ e"
  have "(0::int) < 2 ^ 53" by simp
  then have pos: "0 < a" using assms by linarith
  have abs: "\<bar>a\<bar> = a" using pos by simp
  have P: "0 < P" by (simp add: P_def)
  from bitLength_gt[OF assms] have bl: "53 < bitLength a" .
  have "bitLength a - 1 = (bitLength a - 53) + 52" using bl by simp
  then have "P * 2 ^ 52 = 2 ^ (bitLength a - 1)"
    unfolding P_def e_def abs by (simp only: power_add)
  also have "\<dots> \<le> a" using bitLength_bounds[OF pos] by simp
  finally have Pa: "P * 2 ^ 52 \<le> a" .
  have "(2::int) ^ 1 \<le> 2 ^ e" unfolding e_def abs using bl by (intro power_increasing) auto
  then have P2: "2 \<le> P" by (simp add: P_def)
  have "2 ^ 52 \<le> a div P"
  proof -
    have "(2 ^ 52 * P) div P \<le> a div P" using Pa P by (intro zdiv_mono1) (simp_all add: mult.commute)
    then show ?thesis using P by simp
  qed
  then have q: "2 ^ 52 \<le> a div P" .
  define m where "m = roundHalfEven a P"
  have m: "a div P \<le> m" "m \<le> a div P + 1"
    unfolding m_def using roundHalfEven_bounds(1,2)[of a P] pos P by simp_all
  have t: "toDouble a = m * P"
    using assms pos by (simp add: toDouble_def abs m_def P_def e_def Let_def)
  have "(2::int) ^ 52 * 2 \<le> m * P"
    using m(1) q P2 by (intro mult_mono) auto
  then show "2 ^ 53 \<le> toDouble a" by (simp add: t)
  have "m \<le> 2 * (a div P)" using m(2) q by simp
  then have "m * P \<le> 2 * (a div P) * P" using P by (simp add: mult_right_mono)
  also have "\<dots> \<le> 2 * a"
  proof -
    have "0 \<le> a mod P" using P by simp
    moreover have "(a div P) * P + a mod P = a" by simp
    ultimately show ?thesis by linarith
  qed
  finally show "toDouble a \<le> 2 * a" by (simp add: t)
qed

lemma binaryShift_safe:
  assumes "0 < a" and "a \<le> 2 ^ 53"
  shows "4 \<le> binaryShift a 26"
proof (cases "a = 2 ^ 53")
  case True
  have b: "bitLength 9007199254740992 = 54" by (simp add: bitLength_eq[of 53])
  show ?thesis by (simp add: binaryShift_def bitLength_26 b True)
next
  case False
  then have "a < 2 ^ 53" using assms(2) by simp
  then have "bitLength a \<le> 53" by (rule bitLength_le)
  then show ?thesis by (auto simp: binaryShift_def bitLength_26 Let_def)
qed

lemma div_unique_pos:
  fixes m p A :: int
  assumes "A * p \<le> m" and "m < (A + 1) * p" and "0 < p"
  shows "m div p = A"
proof -
  define r where "r = m - A * p"
  have "0 \<le> r" "r < p" using assms by (simp_all add: r_def algebra_simps)
  moreover have "m = A * p + r" by (simp add: r_def)
  ultimately show ?thesis using assms(3) by simp
qed

lemma floorDiv_exact:
  assumes "0 \<le> n" and "n \<le> 2 ^ 53"
  shows "floorDiv n 26 = n div 26"
proof (cases "n = 0")
  case True
  then show ?thesis by (simp add: floorDiv_def)
next
  case False
  then have pos: "0 < n" using assms(1) by simp
  define j where "j = binaryShift n 26"
  define p where "p = (2::int) ^ nat j"
  have j: "4 \<le> j" unfolding j_def using pos assms(2) by (rule binaryShift_safe)
  have "(2::int) ^ 4 \<le> 2 ^ nat j" using j by (intro power_increasing) auto
  then have p: "16 \<le> p" by (simp add: p_def)
  define m where "m = roundHalfEven (n * p) 26"
  have np: "0 \<le> n * p" using pos p by simp
  define A where "A = n div 26"
  define B where "B = n mod 26"
  define Ap where "Ap = A * p"
  define Bp where "Bp = B * p"
  have B: "0 \<le> B" "B \<le> 25" unfolding B_def by presburger+
  have n: "n = 26 * A + B" by (simp add: A_def B_def)
  have nP: "n * p = 26 * Ap + Bp" by (simp add: n Ap_def Bp_def algebra_simps)
  have Bp: "0 \<le> Bp" "Bp \<le> 25 * p"
    using B p by (simp_all add: Bp_def mult_right_mono)
  have lo: "Ap \<le> m"
  proof -
    have "(26 * Ap + Bp) div 26 = Ap + Bp div 26" by simp
    moreover have "0 \<le> Bp div 26" using Bp(1) by simp
    ultimately have "Ap \<le> (n * p) div 26" unfolding nP by linarith
    also have "\<dots> \<le> m" unfolding m_def using roundHalfEven_bounds(1)[OF np, of 26] by simp
    finally show ?thesis .
  qed
  have "2 * 26 * m \<le> 2 * (n * p) + 26"
    unfolding m_def using roundHalfEven_bounds(3)[OF np, of 26] by simp
  then have "52 * m \<le> 52 * Ap + 2 * Bp + 26" unfolding nP by simp
  then have hi: "m < Ap + p" using Bp(2) p by linarith
  have "m div p = A"
    using lo hi p by (intro div_unique_pos) (simp_all add: Ap_def algebra_simps)
  moreover have "floorDiv n 26 = m div p"
    using False pos j by (simp add: floorDiv_def Let_def m_def p_def j_def)
  ultimately show ?thesis by (simp add: A_def)
qed

lemma floorDiv_quarter:
  assumes "2 ^ 53 \<le> c"
  shows "4 * floorDiv c 26 \<le> c"
proof -
  have "(0::int) < 2 ^ 53" by simp
  then have pos: "0 < c" using assms by linarith
  define j where "j = binaryShift c 26"
  have f: "floorDiv c 26 =
      (if 0 \<le> j then roundHalfEven (c * 2 ^ nat j) 26 div 2 ^ nat j
       else roundHalfEven c (26 * 2 ^ nat (- j)) * 2 ^ nat (- j))"
    using pos by (simp add: floorDiv_def Let_def j_def)
  show ?thesis
  proof (cases "0 \<le> j")
    case True
    define p where "p = (2::int) ^ nat j"
    define Cp where "Cp = c * p"
    define m where "m = roundHalfEven Cp 26"
    define X where "X = Cp div 26"
    define R where "R = m div p"
    have p: "1 \<le> p" by (simp add: p_def)
    have "c * 1 \<le> c * p" using p pos by (intro mult_left_mono) auto
    then have Cp: "c \<le> Cp" by (simp add: Cp_def)
    have Cp0: "0 \<le> Cp" using Cp pos by linarith
    have m: "m \<le> X + 1" "X \<le> m"
      unfolding m_def X_def using roundHalfEven_bounds(1,2)[OF Cp0, of 26] by simp_all
    have "0 \<le> Cp mod 26" by simp
    moreover have "26 * X + Cp mod 26 = Cp" by (simp add: X_def)
    ultimately have X1: "26 * X \<le> Cp" by linarith
    have X2: "0 \<le> X" unfolding X_def using Cp0 by simp
    note X = X1 X2
    have m0: "0 \<le> m" using m(2) X(2) by linarith
    have "0 \<le> m mod p" using p by simp
    moreover have "R * p + m mod p = m" by (simp add: R_def)
    ultimately have Rp: "R * p \<le> m" by linarith
    have "4 * (R * p) \<le> Cp" using Rp m(1) X(1) Cp assms by simp
    then have "(4 * R) * p \<le> c * p" by (simp add: Cp_def algebra_simps)
    then have "4 * R \<le> c" using p by (simp add: mult_le_cancel_right)
    then show ?thesis using True by (simp add: f R_def m_def Cp_def p_def)
  next
    case False
    define P where "P = (2::int) ^ nat (- j)"
    define m where "m = roundHalfEven c (26 * P)"
    define Q where "Q = c div (26 * P)"
    define X where "X = Q * P"
    have P: "0 < P" by (simp add: P_def)
    have bl: "57 < bitLength c \<and> nat (- j) \<le> bitLength c - 57"
      using False unfolding j_def binaryShift_def Let_def bitLength_26
      by (auto split: if_splits)
    have "P \<le> 2 ^ (bitLength c - 57)" unfolding P_def using bl by (intro power_increasing) auto
    then have "P * 2 ^ 56 \<le> 2 ^ (bitLength c - 57) * 2 ^ 56" by simp
    also have "\<dots> = 2 ^ (bitLength c - 1)"
    proof -
      have "bitLength c - 1 = (bitLength c - 57) + 56" using bl by simp
      then show ?thesis by (simp only: power_add)
    qed
    also have "\<dots> \<le> c" using bitLength_bounds[OF pos] by simp
    finally have Pc: "P * 2 ^ 56 \<le> c" .
    have m: "m \<le> Q + 1"
      unfolding m_def Q_def using roundHalfEven_bounds(2)[of c "26 * P"] pos P by simp
    have "0 \<le> c mod (26 * P)" using P by simp
    moreover have "Q * (26 * P) + c mod (26 * P) = c" unfolding Q_def by (rule div_mult_mod_eq)
    ultimately have "26 * X \<le> c" by (simp add: X_def algebra_simps)
    moreover have "m * P \<le> X + P"
    proof -
      have "m * P \<le> (Q + 1) * P" using m P by (intro mult_right_mono) auto
      then show ?thesis by (simp add: X_def algebra_simps)
    qed
    ultimately have "4 * (m * P) \<le> c" using Pc P by simp
    then show ?thesis using False by (simp add: f m_def P_def)
  qed
qed

lemma floorDiv_decreases:
  assumes "0 < n"
  shows "floorDiv (toDouble (n - 1)) 26 < n"
proof (cases "n - 1 < 2 ^ 53")
  case True
  then have "toDouble (n - 1) = n - 1" using assms by (intro toDouble_small) simp
  moreover have "floorDiv (n - 1) 26 = (n - 1) div 26"
    using True assms by (intro floorDiv_exact) simp_all
  moreover have "(n - 1) div 26 \<le> n - 1" using assms by simp
  ultimately show ?thesis by simp
next
  case False
  then have l: "2 ^ 53 \<le> n - 1" by simp
  from toDouble_large[OF l] have t: "2 ^ 53 \<le> toDouble (n - 1)" "toDouble (n - 1) \<le> 2 * (n - 1)" .
  define T where "T = toDouble (n - 1)"
  define F where "F = floorDiv T 26"
  have "4 * F \<le> T" unfolding F_def T_def using t(1) by (rule floorDiv_quarter)
  moreover have "T \<le> 2 * n - 2" using t(2) by (simp add: T_def)
  ultimately have "F < n" using assms by linarith
  then show ?thesis by (simp add: F_def T_def)
qed

section \<open>Address codec (lib/cellAddress and the helpers of types)\<close>

text \<open>
  Strings are \<open>string\<close>; \<open>charCodeAt\<close> is \<open>of_char\<close> and
  \<open>String.fromCharCode\<close> is \<open>char_of\<close>. The arguments of \<open>colToLetter\<close> and of
  \<open>formatAddress\<close> are doubles that hold integers.
\<close>

definition charCode :: "char \<Rightarrow> int" where
  "charCode c = of_char c"

definition isUpper :: "char \<Rightarrow> bool" where
  "isUpper c = (65 \<le> charCode c \<and> charCode c \<le> 90)"

definition isDigit :: "char \<Rightarrow> bool" where
  "isDigit c = (48 \<le> charCode c \<and> charCode c \<le> 57)"

definition isDigit19 :: "char \<Rightarrow> bool" where
  "isDigit19 c = (49 \<le> charCode c \<and> charCode c \<le> 57)"

text \<open>The body of the \<open>while (colNum > 0)\<close> loop of \<open>colToLetter\<close>: \<open>colNum -= 1\<close>,
  the letter of \<open>colNum % 26\<close>, and \<open>Math.floor(colNum / 26)\<close>.\<close>

function colToLetter_loop :: "int \<Rightarrow> string \<Rightarrow> string" where
  "colToLetter_loop colNum result =
     (if colNum > 0
      then (let colNum1 = toDouble (colNum - 1)
            in colToLetter_loop (floorDiv colNum1 26)
                 (char_of (65 + (colNum1 mod 26)) # result))
      else result)"
  by pat_completeness auto
termination
proof (relation "measure (\<lambda>(colNum, result). nat colNum)", goal_cases)
  case 1
  show ?case by simp
next
  case (2 colNum result colNum1)
  then show ?case using floorDiv_decreases[of colNum] by simp
qed

declare colToLetter_loop.simps [simp del]

definition colToLetter :: "int \<Rightarrow> string" where
  "colToLetter col = colToLetter_loop (toDouble (col + 1)) []"

text \<open>The \<open>for\<close> loop of \<open>letterToCol\<close>, with \<open>col\<close> as the accumulator: the product
  is rounded, then the sum.\<close>

fun letterToCol_loop :: "string \<Rightarrow> int \<Rightarrow> int" where
  "letterToCol_loop [] col = col"
| "letterToCol_loop (c # cs) col =
     letterToCol_loop cs (toDouble (toDouble (col * 26) + (charCode c - 65 + 1)))"

definition letterToCol :: "string \<Rightarrow> int" where
  "letterToCol letters = toDouble (letterToCol_loop letters 0 - 1)"

text \<open>
  \<open>parseInt\<close> on the strings this program gives it (no leading white space, sign or
  radix prefix): the double nearest to the value of the longest prefix of decimal digits
  (\<open>digitsValue\<close> is that value), \<open>None\<close> for \<open>NaN\<close> when that prefix is empty.
\<close>

fun digitsValue :: "string \<Rightarrow> int \<Rightarrow> int" where
  "digitsValue [] acc = acc"
| "digitsValue (c # cs) acc = digitsValue cs (acc * 10 + (charCode c - 48))"

definition parseInt :: "string \<Rightarrow> int option" where
  "parseInt s =
     (let ds = takeWhile isDigit s
      in if ds = [] then None else Some (toDouble (digitsValue ds 0)))"

text \<open>
  The regular expression \<open>^(\$?)([A-Z]+)(\$?)([1-9][0-9]*)$\<close> of \<open>parseAddress\<close>
  (and, without the groups, of \<open>toCellAddress\<close> and \<open>parseCellAddress\<close>). The three
  character classes are disjoint, so a match splits the string in one way only and the
  greedy scan below finds it; the result holds the four groups.
\<close>

definition matchAddress :: "string \<Rightarrow> (string \<times> string \<times> string \<times> string) option" where
  "matchAddress addr =
     (let (colAbsolute, r1) = (case addr of c # r \<Rightarrow> if c = CHR ''$'' then (''$'', r) else ('''', addr)
                                          | [] \<Rightarrow> ('''', addr));
          colStr = takeWhile isUpper r1;
          r2 = dropWhile isUpper r1;
          (rowAbsolute, rowStr) = (case r2 of c # r \<Rightarrow> if c = CHR ''$'' then (''$'', r) else ('''', r2)
                                              | [] \<Rightarrow> ('''', r2))
      in if colStr \<noteq> [] \<and> (case rowStr of [] \<Rightarrow> False | d # ds \<Rightarrow> isDigit19 d \<and> list_all isDigit ds)
         then Some (colAbsolute, colStr, rowAbsolute, rowStr)
         else None)"

text \<open>Thrown errors are values: the message of the \<open>Error\<close>.\<close>

type_synonym 'a result = "string + 'a"

definition toCellAddress :: "string \<Rightarrow> string result" where
  "toCellAddress addr =
     (case matchAddress addr of
        None \<Rightarrow> Inl (''Invalid cell address format: '' @ addr)
      | Some _ \<Rightarrow> Inr addr)"

record parsedAddress =
  col :: int
  row :: int
  absoluteCol :: bool
  absoluteRow :: bool

text \<open>\<open>parseInt(rowStr, 10)\<close> is given digits only: it is the double nearest to their
  value.\<close>

definition parseAddress :: "string \<Rightarrow> parsedAddress result" where
  "parseAddress addr =
     (case matchAddress addr of
        None \<Rightarrow> Inl (''Invalid cell address: '' @ addr)
      | Some (colAbsolute, colStr, rowAbsolute, rowStr) \<Rightarrow>
          Inr \<lparr> col = letterToCol colStr,
                row = toDouble (toDouble (digitsValue rowStr 0) - 1),
                absoluteCol = (colAbsolute = ''$''),
                absoluteRow = (rowAbsolute = ''$'') \<rparr>)"

definition formatAddress :: "int \<Rightarrow> int \<Rightarrow> bool \<Rightarrow> bool \<Rightarrow> string result" where
  "formatAddress c r absCol absRow =
     (let colStr = (if absCol then ''$'' else '''') @ colToLetter c;
          rowStr = (if absRow then ''$'' else '''') @ numToString (toDouble (r + 1))
      in toCellAddress (colStr @ rowStr))"

section \<open>Dependency graph (class DependencyGraph of lib/engine)\<close>

text \<open>
  A JavaScript \<open>Map\<close> is an association list in insertion order: \<open>get\<close> is
  \<open>map_of\<close>, \<open>set\<close> is \<open>AList.update\<close> (an existing key keeps its place, a new one
  goes last) and \<open>delete\<close> is \<open>AList.delete\<close>. A \<open>Set\<close> is a list without duplicates
  in insertion order. The sets stored in the two maps are mutated in place by the source;
  here the map entry is replaced by the new set.
\<close>

type_synonym cellAddress = string

definition setAdd :: "'a \<Rightarrow> 'a list \<Rightarrow> 'a list" where
  "setAdd x s = (if x \<in> set s then s else s @ [x])"

definition setDelete :: "'a \<Rightarrow> 'a list \<Rightarrow> 'a list" where
  "setDelete x s = removeAll x s"

record dependencyGraph =
  dependencies :: "(cellAddress \<times> cellAddress list) list"
  dependents :: "(cellAddress \<times> cellAddress list) list"

definition newDependencyGraph :: dependencyGraph where
  "newDependencyGraph = \<lparr> dependencies = [], dependents = [] \<rparr>"

definition addDependency :: "dependencyGraph \<Rightarrow> cellAddress \<Rightarrow> cellAddress \<Rightarrow> dependencyGraph" where
  "addDependency g from to =
     (let deps1 = (if map_of (dependencies g) from = None
                   then AList.update from [] (dependencies g) else dependencies g);
          dpts1 = (if map_of (dependents g) to = None
                   then AList.update to [] (dependents g) else dependents g);
          deps2 = (case map_of deps1 from of
                     None \<Rightarrow> deps1
                   | Some s \<Rightarrow> AList.update from (setAdd to s) deps1);
          dpts2 = (case map_of dpts1 to of
                     None \<Rightarrow> dpts1
                   | Some s \<Rightarrow> AList.update to (setAdd from s) dpts1)
      in \<lparr> dependencies = deps2, dependents = dpts2 \<rparr>)"

text \<open>One pass of either \<open>for\<close> loop of \<open>removeDependencies\<close>: delete \<open>cell\<close> from the
  set stored under \<open>k\<close>, when there is one.\<close>

definition deleteFrom :: "cellAddress \<Rightarrow> cellAddress \<Rightarrow> (cellAddress \<times> cellAddress list) list
    \<Rightarrow> (cellAddress \<times> cellAddress list) list" where
  "deleteFrom cell k m =
     (case map_of m k of None \<Rightarrow> m | Some s \<Rightarrow> AList.update k (setDelete cell s) m)"

definition removeDependencies :: "dependencyGraph \<Rightarrow> cellAddress \<Rightarrow> dependencyGraph" where
  "removeDependencies g cell =
     (let g1 = (case map_of (dependencies g) cell of
                  None \<Rightarrow> g
                | Some deps \<Rightarrow>
                    \<lparr> dependencies = AList.delete cell (dependencies g),
                      dependents = fold (deleteFrom cell) deps (dependents g) \<rparr>)
      in case map_of (dependents g1) cell of
           None \<Rightarrow> g1
         | Some dependents' \<Rightarrow>
             \<lparr> dependencies = fold (deleteFrom cell) dependents' (dependencies g1),
               dependents = AList.delete cell (dependents g1) \<rparr>)"

definition getDependencies :: "dependencyGraph \<Rightarrow> cellAddress \<Rightarrow> cellAddress list" where
  "getDependencies g cell = (case map_of (dependencies g) cell of None \<Rightarrow> [] | Some s \<Rightarrow> s)"

definition getDependents :: "dependencyGraph \<Rightarrow> cellAddress \<Rightarrow> cellAddress list" where
  "getDependents g cell = (case map_of (dependents g) cell of None \<Rightarrow> [] | Some s \<Rightarrow> s)"

text \<open>
  The \<open>while (stack.length > 0)\<close> loop of \<open>hasCycle\<close>. The head of the list is the top
  of the stack: \<open>pop\<close> takes it, and the \<open>push\<close>es of the \<open>for\<close> loop leave the last
  dependency pushed on top.
\<close>

function hasCycle_loop :: "(cellAddress \<times> cellAddress list) list \<Rightarrow> cellAddress
    \<Rightarrow> cellAddress list \<Rightarrow> cellAddress set \<Rightarrow> bool" where
  "hasCycle_loop deps from [] visited = False"
| "hasCycle_loop deps from (current # stack) visited =
     (if current = from then True
      else if current \<in> visited then hasCycle_loop deps from stack visited
      else hasCycle_loop deps from
             (rev (filter (\<lambda>dep. dep \<notin> insert current visited)
                     (case map_of deps current of None \<Rightarrow> [] | Some ds \<Rightarrow> ds)) @ stack)
             (insert current visited))"
  by pat_completeness auto
termination
proof (relation "measures
    [\<lambda>(deps, from, stack, visited). card ((set stack \<union> \<Union>(set ` snd ` set deps)) - visited),
     \<lambda>(deps, from, stack, visited). length stack]", goal_cases)
  case 1
  show ?case by simp
next
  case (2 deps src current stack visited)
  then have "(set (current # stack) \<union> \<Union>(set ` snd ` set deps)) - visited
           = (set stack \<union> \<Union>(set ` snd ` set deps)) - visited"
    by auto
  then show ?case by simp
next
  case (3 deps src current stack visited)
  let ?R = "\<Union>(set ` snd ` set deps)"
  let ?new = "rev (filter (\<lambda>dep. dep \<notin> insert current visited)
                     (case map_of deps current of None \<Rightarrow> [] | Some ds \<Rightarrow> ds))"
  have sub: "set ?new \<subseteq> ?R"
  proof (cases "map_of deps current")
    case None
    then show ?thesis by simp
  next
    case (Some ds)
    then have "(current, ds) \<in> set deps" by (rule map_of_SomeD)
    then have "set ds \<subseteq> ?R" by force
    then show ?thesis using Some by auto
  qed
  have fin: "finite ((set (current # stack) \<union> ?R) - visited)" by simp
  have "(set (?new @ stack) \<union> ?R) - insert current visited
        \<subset> (set (current # stack) \<union> ?R) - visited"
    using 3 sub by auto
  then have "card ((set (?new @ stack) \<union> ?R) - insert current visited)
        < card ((set (current # stack) \<union> ?R) - visited)"
    using fin by (intro psubset_card_mono)
  then show ?case by simp
qed

text \<open>\<open>hasCycle\<close> reads the two maps and writes neither; the graph it returns is the
  graph after the call.\<close>

definition hasCycle :: "dependencyGraph \<Rightarrow> cellAddress \<Rightarrow> cellAddress \<Rightarrow> bool \<times> dependencyGraph" where
  "hasCycle g from to = (hasCycle_loop (dependencies g) from [to] {}, g)"

text \<open>\<open>getEvaluationOrder\<close>: the in-degree map is a \<open>Map\<close> too, iterated in insertion
  order when the queue is seeded.\<close>

definition incrementIn :: "cellAddress \<Rightarrow> (cellAddress \<times> int) list \<Rightarrow> (cellAddress \<times> int) list" where
  "incrementIn dep inDegree =
     (case map_of inDegree dep of None \<Rightarrow> inDegree | Some d \<Rightarrow> AList.update dep (d + 1) inDegree)"

definition countDeps :: "(cellAddress \<times> cellAddress list) list \<Rightarrow> cellAddress
    \<Rightarrow> (cellAddress \<times> int) list \<Rightarrow> (cellAddress \<times> int) list" where
  "countDeps deps cell inDegree =
     (case map_of deps cell of None \<Rightarrow> inDegree | Some ds \<Rightarrow> fold incrementIn ds inDegree)"

text \<open>The inner \<open>for\<close> loop of the queue processing: decrement and enqueue at zero.\<close>

fun decrementDeps :: "cellAddress list \<Rightarrow> (cellAddress \<times> int) list \<Rightarrow> cellAddress list
    \<Rightarrow> (cellAddress \<times> int) list \<times> cellAddress list" where
  "decrementDeps [] inDegree queue = (inDegree, queue)"
| "decrementDeps (dep # ds) inDegree queue =
     (case map_of inDegree dep of
        None \<Rightarrow> decrementDeps ds inDegree queue
      | Some d \<Rightarrow>
          (let newDegree = d - 1
           in decrementDeps ds (AList.update dep newDegree inDegree)
                (if newDegree = 0 then queue @ [dep] else queue)))"

definition degreeSum :: "(cellAddress \<times> int) list \<Rightarrow> nat" where
  "degreeSum inDegree = sum_list (map (\<lambda>(k, d). nat d) inDegree)"

lemma degreeSum_update:
  "map_of m k = Some d \<Longrightarrow>
   degreeSum (AList.update k (d - 1) m) + (if d - 1 = 0 then 1 else 0) \<le> degreeSum m"
  by (induction m) (auto simp: degreeSum_def)

lemma decrementDeps_measure:
  "decrementDeps ds m q = (m', q') \<Longrightarrow> degreeSum m' + length q' \<le> degreeSum m + length q"
proof (induction ds arbitrary: m q)
  case Nil
  then show ?case by simp
next
  case (Cons dep ds)
  show ?case
  proof (cases "map_of m dep")
    case None
    with Cons show ?thesis by simp
  next
    case (Some d)
    let ?m1 = "AList.update dep (d - 1) m"
    let ?q1 = "if d - 1 = 0 then q @ [dep] else q"
    from Cons.prems Some have "decrementDeps ds ?m1 ?q1 = (m', q')" by (simp add: Let_def)
    from Cons.IH[OF this] degreeSum_update[OF Some] show ?thesis
      by (auto split: if_splits)
  qed
qed

function processQueue :: "(cellAddress \<times> cellAddress list) list \<Rightarrow> (cellAddress \<times> int) list
    \<Rightarrow> cellAddress list \<Rightarrow> cellAddress list \<Rightarrow> cellAddress list" where
  "processQueue deps inDegree [] result = result"
| "processQueue deps inDegree (current # queue) result =
     (case map_of deps current of
        None \<Rightarrow> processQueue deps inDegree queue (result @ [current])
      | Some ds \<Rightarrow>
          (case decrementDeps ds inDegree queue of
             (inDegree', queue') \<Rightarrow> processQueue deps inDegree' queue' (result @ [current])))"
  by pat_completeness auto
termination
proof (relation "measure (\<lambda>(deps, inDegree, queue, result). degreeSum inDegree + length queue)",
    goal_cases)
  case 1
  show ?case by simp
next
  case 2
  then show ?case by simp
next
  case (3 deps inDegree current queue result ds inDegree' queue')
  then show ?case using decrementDeps_measure[of ds inDegree queue inDegree' queue'] by simp
qed

definition getEvaluationOrder :: "dependencyGraph \<Rightarrow> cellAddress list \<Rightarrow> cellAddress list" where
  "getEvaluationOrder g cells =
     (let inDegree0 = fold (\<lambda>cell m. AList.update cell 0 m) cells [];
          inDegree = fold (countDeps (dependencies g)) cells inDegree0;
          queue = map fst (filter (\<lambda>(cell, degree). degree = 0) inDegree)
      in processQueue (dependencies g) inDegree queue [])"

text \<open>A run of the graph's two mutating operations, for statements about every
  sequence of calls.\<close>

datatype graphOp = AddDependency cellAddress cellAddress | RemoveDependencies cellAddress

fun applyOp :: "dependencyGraph \<Rightarrow> graphOp \<Rightarrow> dependencyGraph" where
  "applyOp g (AddDependency from to) = addDependency g from to"
| "applyOp g (RemoveDependencies cell) = removeDependencies g cell"

text \<open>The two maps are inverses of one another.\<close>

definition consistent :: "dependencyGraph \<Rightarrow> bool" where
  "consistent g = (\<forall>a b. b \<in> set (getDependencies g a) \<longleftrightarrow> a \<in> set (getDependents g b))"

text \<open>The set stored under a key, empty when the key is absent.\<close>

definition entrySet :: "(cellAddress \<times> cellAddress list) list \<Rightarrow> cellAddress \<Rightarrow> cellAddress set" where
  "entrySet m k = (case map_of m k of None \<Rightarrow> {} | Some s \<Rightarrow> set s)"

text \<open>The dependency edges: \<open>(a, b)\<close> when \<open>b\<close> is in \<open>dependencies[a]\<close>.\<close>

definition depEdges :: "(cellAddress \<times> cellAddress list) list \<Rightarrow> (cellAddress \<times> cellAddress) set" where
  "depEdges deps = {(a, b). b \<in> entrySet deps a}"

text \<open>The linear chain of the specification: A3 depends on A2, A2 depends on A1.\<close>

definition chainGraph :: dependencyGraph where
  "chainGraph = addDependency (addDependency newDependencyGraph ''A3'' ''A2'') ''A2'' ''A1''"

section \<open>Values, cells and formulas (types)\<close>

text \<open>
  A JavaScript number is a finite value, one of the two infinities or \<open>NaN\<close>. Finite
  values are exact reals: the rounding and the overflow of IEEE doubles are not modelled,
  and neither is the sign of zero (no operation of the engine tells the two zeros apart).
\<close>

datatype jsnum = Fin real | PosInf | NegInf | NaN

fun jsNeg :: "jsnum \<Rightarrow> jsnum" where
  "jsNeg (Fin a) = Fin (- a)"
| "jsNeg PosInf = NegInf"
| "jsNeg NegInf = PosInf"
| "jsNeg NaN = NaN"

fun jsAdd :: "jsnum \<Rightarrow> jsnum \<Rightarrow> jsnum" where
  "jsAdd (Fin a) (Fin b) = Fin (a + b)"
| "jsAdd NaN _ = NaN"
| "jsAdd _ NaN = NaN"
| "jsAdd PosInf NegInf = NaN"
| "jsAdd NegInf PosInf = NaN"
| "jsAdd PosInf _ = PosInf"
| "jsAdd NegInf _ = NegInf"
| "jsAdd _ PosInf = PosInf"
| "jsAdd _ NegInf = NegInf"

definition jsSub :: "jsnum \<Rightarrow> jsnum \<Rightarrow> jsnum" where
  "jsSub a b = jsAdd a (jsNeg b)"

text \<open>The sign of a number that is not \<open>NaN\<close>: \<open>-1\<close>, \<open>0\<close> or \<open>1\<close>.\<close>

fun jsSign :: "jsnum \<Rightarrow> int" where
  "jsSign (Fin a) = (if a < 0 then - 1 else if a = 0 then 0 else 1)"
| "jsSign PosInf = 1"
| "jsSign NegInf = - 1"
| "jsSign NaN = 0"

definition infOfSign :: "int \<Rightarrow> jsnum" where
  "infOfSign s = (if s = 0 then NaN else if s < 0 then NegInf else PosInf)"

fun jsMul :: "jsnum \<Rightarrow> jsnum \<Rightarrow> jsnum" where
  "jsMul (Fin a) (Fin b) = Fin (a * b)"
| "jsMul NaN _ = NaN"
| "jsMul _ NaN = NaN"
| "jsMul a b = infOfSign (jsSign a * jsSign b)"

fun jsDiv :: "jsnum \<Rightarrow> jsnum \<Rightarrow> jsnum" where
  "jsDiv (Fin a) (Fin b) = (if b = 0 then infOfSign (jsSign (Fin a)) else Fin (a / b))"
| "jsDiv NaN _ = NaN"
| "jsDiv _ NaN = NaN"
| "jsDiv (Fin a) _ = Fin 0"
| "jsDiv a (Fin b) = infOfSign (jsSign a * (if b < 0 then - 1 else 1))"
| "jsDiv _ _ = NaN"

fun jsLess :: "jsnum \<Rightarrow> jsnum \<Rightarrow> bool" where
  "jsLess (Fin a) (Fin b) = (a < b)"
| "jsLess NaN _ = False"
| "jsLess _ NaN = False"
| "jsLess NegInf b = (b \<noteq> NegInf)"
| "jsLess a PosInf = (a \<noteq> PosInf)"
| "jsLess _ _ = False"

text \<open>\<open>===\<close> on numbers: \<open>NaN\<close> equals nothing.\<close>

definition jsNumEq :: "jsnum \<Rightarrow> jsnum \<Rightarrow> bool" where
  "jsNumEq a b = (a \<noteq> NaN \<and> a = b)"

definition jsLessEq :: "jsnum \<Rightarrow> jsnum \<Rightarrow> bool" where
  "jsLessEq a b = (jsLess a b \<or> jsNumEq a b)"

text \<open>
  A run-time value of the evaluator: a \<open>CellValue\<close> (number, string, boolean or
  \<open>null\<close>), or the array that \<open>evaluateRange\<close> returns through \<open>as any\<close>.
\<close>

datatype cellValue = VNum jsnum | VStr string | VBool bool | VNull | VArr "cellValue list"

datatype formulaAst =
    NumberLiteral jsnum
  | StringLiteral string
  | BooleanLiteral bool
  | CellRef cellAddress bool bool
  | RangeRef cellAddress cellAddress
  | FunctionCall string "formulaAst list"
  | BinaryOp string formulaAst formulaAst
  | UnaryOp string formulaAst

datatype errorCode = CYCLE | REF | PARSE | DIV0

datatype cell =
    LiteralCell cellValue
  | FormulaCell string formulaAst
  | ErrorCell errorCode string

record sheet =
  sheetId :: string
  sheetName :: string
  sheetRows :: int
  sheetCols :: int
  cells :: "(cellAddress \<times> cell) list"
  updatedAt :: nat

record evalResult =
  resultValue :: cellValue
  error :: "(errorCode \<times> string) option"

text \<open>
  The two functions of the JavaScript library that the evaluator calls on arbitrary
  input are parameters of the model: \<open>Number\<close> on a string and \<open>Math.pow\<close>.
\<close>

record host =
  numberOfString :: "string \<Rightarrow> jsnum"
  mathPow :: "jsnum \<Rightarrow> jsnum \<Rightarrow> jsnum"

section \<open>Evaluator (class FormulaEngine of lib/engine)\<close>

subsection \<open>The address helpers of types that the engine imports\<close>

record parsedCell =
  pcol :: int
  prow :: int

definition parseCellAddress :: "cellAddress \<Rightarrow> parsedCell result" where
  "parseCellAddress addr =
     (case matchAddress addr of
        None \<Rightarrow> Inl (''Invalid cell address: '' @ addr)
      | Some (colAbsolute, colStr, rowAbsolute, rowStr) \<Rightarrow>
          Inr \<lparr> pcol = toDouble (letterToCol_loop colStr 0 - 1),
                prow = toDouble (toDouble (digitsValue rowStr 0) - 1) \<rparr>)"

definition formatCellAddress :: "int \<Rightarrow> int \<Rightarrow> cellAddress result" where
  "formatCellAddress c r =
     (if c < 0 \<or> r < 0
      then Inl (''Invalid cell coordinates: col='' @ numToString c @ '', row='' @ numToString r)
      else toCellAddress (colToLetter_loop (toDouble (c + 1)) [] @ numToString (toDouble (r + 1))))"

subsection \<open>Evaluation\<close>

text \<open>
  An evaluation returns a value or throws (\<open>Inl\<close> of the message), and leaves the
  visited set of the context in some state: the set is an object that the calls mutate.
  The recursion of \<open>evaluateAst\<close> is bounded by fuel, and \<open>None\<close> means that the fuel
  ran out. Each method below takes the recursive call \<open>this.evaluateAst\<close> as its first
  argument \<open>ev\<close>.
\<close>

type_synonym visitedSet = "cellAddress set"
type_synonym 'a eval = "('a result \<times> visitedSet) option"
type_synonym evaluator = "formulaAst \<Rightarrow> visitedSet \<Rightarrow> cellValue eval"

text \<open>A \<open>for\<close> loop whose body may throw: the accumulator stands for the loop's local
  variables.\<close>

fun forEach :: "('b \<Rightarrow> 'a \<Rightarrow> visitedSet \<Rightarrow> 'a eval) \<Rightarrow> 'b list \<Rightarrow> 'a \<Rightarrow> visitedSet \<Rightarrow> 'a eval" where
  "forEach body [] acc visited = Some (Inr acc, visited)"
| "forEach body (x # xs) acc visited =
     (case body x acc visited of
        None \<Rightarrow> None
      | Some (Inl e, visited') \<Rightarrow> Some (Inl e, visited')
      | Some (Inr acc', visited') \<Rightarrow> forEach body xs acc' visited')"

text \<open>Sequencing: run \<open>m\<close>, and unless it threw, go on with its value.\<close>

definition andThen :: "'a eval \<Rightarrow> ('a \<Rightarrow> visitedSet \<Rightarrow> 'b eval) \<Rightarrow> 'b eval" where
  "andThen m k =
     (case m of
        None \<Rightarrow> None
      | Some (Inl e, visited') \<Rightarrow> Some (Inl e, visited')
      | Some (Inr v, visited') \<Rightarrow> k v visited')"

definition evaluateCellRef :: "evaluator \<Rightarrow> sheet \<Rightarrow> cellAddress \<Rightarrow> visitedSet \<Rightarrow> cellValue eval" where
  "evaluateCellRef ev sh address visited =
     (if address \<in> visited
      then Some (Inl (''CIRC:Circular reference detected: '' @ address), visited)
      else case map_of (cells sh) address of
             None \<Rightarrow> Some (Inr (VStr ''''), visited)
           | Some (LiteralCell v) \<Rightarrow> Some (Inr v, visited)
           | Some (ErrorCell code message) \<Rightarrow> Some (Inl message, visited)
           | Some (FormulaCell src ast) \<Rightarrow>
               (case ev ast (insert address visited) of
                  None \<Rightarrow> None
                | Some (r, visited') \<Rightarrow> Some (r, visited' - {address})))"

definition evaluateRange :: "evaluator \<Rightarrow> sheet \<Rightarrow> cellAddress \<Rightarrow> cellAddress \<Rightarrow> visitedSet
    \<Rightarrow> (cellValue list) eval" where
  "evaluateRange ev sh start end visited =
     (case parseCellAddress start of
        Inl e \<Rightarrow> Some (Inl e, visited)
      | Inr startParsed \<Rightarrow>
     (case parseCellAddress end of
        Inl e \<Rightarrow> Some (Inl e, visited)
      | Inr endParsed \<Rightarrow>
          forEach (\<lambda>r. forEach (\<lambda>c values visited.
                      case formatCellAddress c r of
                        Inl e \<Rightarrow> Some (Inl e, visited)
                      | Inr cellAddr \<Rightarrow>
                          andThen (evaluateCellRef ev sh cellAddr visited)
                            (\<lambda>cellValue visited. Some (Inr (values @ [cellValue]), visited)))
                    [pcol startParsed .. pcol endParsed])
            [prow startParsed .. prow endParsed] [] visited))"

definition isNumber :: "cellValue \<Rightarrow> bool" where
  "isNumber v = (case v of VNum _ \<Rightarrow> True | _ \<Rightarrow> False)"

definition numbersOf :: "cellValue list \<Rightarrow> jsnum list" where
  "numbersOf vs = concat (map (\<lambda>v. case v of VNum n \<Rightarrow> [n] | _ \<Rightarrow> []) vs)"

definition getNumericValues :: "host \<Rightarrow> evaluator \<Rightarrow> formulaAst \<Rightarrow> visitedSet \<Rightarrow> (jsnum list) eval" where
  "getNumericValues h ev ast visited =
     andThen (ev ast visited) (\<lambda>v visited. Some (Inr
       (case v of
          VArr vs \<Rightarrow> numbersOf vs
        | VNum n \<Rightarrow> [n]
        | VStr s \<Rightarrow> (if numberOfString h s \<noteq> NaN then [numberOfString h s] else [])
        | _ \<Rightarrow> []), visited))"

definition getAllValues :: "evaluator \<Rightarrow> formulaAst \<Rightarrow> visitedSet \<Rightarrow> (cellValue list) eval" where
  "getAllValues ev ast visited =
     andThen (ev ast visited) (\<lambda>v visited. Some (Inr
       (case v of VArr vs \<Rightarrow> vs | _ \<Rightarrow> [v]), visited))"

definition evaluateSum :: "host \<Rightarrow> evaluator \<Rightarrow> formulaAst list \<Rightarrow> visitedSet \<Rightarrow> cellValue eval" where
  "evaluateSum h ev args visited =
     andThen (forEach (\<lambda>arg sum visited.
                 andThen (getNumericValues h ev arg visited)
                   (\<lambda>values visited. Some (Inr (jsAdd sum (foldl jsAdd (Fin 0) values)), visited)))
               args (Fin 0) visited)
       (\<lambda>sum visited. Some (Inr (VNum sum), visited))"

definition evaluateAverage :: "host \<Rightarrow> evaluator \<Rightarrow> formulaAst list \<Rightarrow> visitedSet \<Rightarrow> cellValue eval" where
  "evaluateAverage h ev args visited =
     andThen (forEach (\<lambda>arg (sum, count) visited.
                 andThen (getNumericValues h ev arg visited)
                   (\<lambda>values visited. Some (Inr (jsAdd sum (foldl jsAdd (Fin 0) values),
                                                 count + length values), visited)))
               args (Fin 0, 0) visited)
       (\<lambda>(sum, count) visited.
           Some (Inr (VNum (if count > 0 then jsDiv sum (Fin (real count)) else Fin 0)), visited))"

definition evaluateMin :: "host \<Rightarrow> evaluator \<Rightarrow> formulaAst list \<Rightarrow> visitedSet \<Rightarrow> cellValue eval" where
  "evaluateMin h ev args visited =
     andThen (forEach (\<lambda>arg min visited.
                 andThen (getNumericValues h ev arg visited)
                   (\<lambda>values visited.
                      Some (Inr (foldl (\<lambda>min val. if jsLess val min then val else min) min values),
                            visited)))
               args PosInf visited)
       (\<lambda>min visited. Some (Inr (VNum (if min = PosInf then Fin 0 else min)), visited))"

definition evaluateMax :: "host \<Rightarrow> evaluator \<Rightarrow> formulaAst list \<Rightarrow> visitedSet \<Rightarrow> cellValue eval" where
  "evaluateMax h ev args visited =
     andThen (forEach (\<lambda>arg max visited.
                 andThen (getNumericValues h ev arg visited)
                   (\<lambda>values visited.
                      Some (Inr (foldl (\<lambda>max val. if jsLess max val then val else max) max values),
                            visited)))
               args NegInf visited)
       (\<lambda>max visited. Some (Inr (VNum (if max = NegInf then Fin 0 else max)), visited))"

definition evaluateCount :: "evaluator \<Rightarrow> formulaAst list \<Rightarrow> visitedSet \<Rightarrow> cellValue eval" where
  "evaluateCount ev args visited =
     andThen (forEach (\<lambda>arg count visited.
                 andThen (getAllValues ev arg visited)
                   (\<lambda>values visited.
                      Some (Inr (count + length (filter (\<lambda>val. val \<noteq> VNull \<and> val \<noteq> VStr '''') values)),
                            visited)))
               args 0 visited)
       (\<lambda>count visited. Some (Inr (VNum (Fin (real count))), visited))"

text \<open>\<open>Boolean(condition) && condition !== 0 && condition !== ''\<close>.\<close>

definition isTruthy :: "cellValue \<Rightarrow> bool" where
  "isTruthy condition =
     (case condition of
        VNum n \<Rightarrow> n \<noteq> Fin 0 \<and> n \<noteq> NaN
      | VStr s \<Rightarrow> s \<noteq> ''''
      | VBool b \<Rightarrow> b
      | VNull \<Rightarrow> False
      | VArr _ \<Rightarrow> True)"

definition evaluateIf :: "evaluator \<Rightarrow> formulaAst list \<Rightarrow> visitedSet \<Rightarrow> cellValue eval" where
  "evaluateIf ev args visited =
     (if length args < 2 \<or> length args > 3
      then Some (Inl ''IF function requires 2 or 3 arguments'', visited)
      else andThen (ev (args ! 0) visited)
             (\<lambda>condition visited.
                if isTruthy condition then ev (args ! 1) visited
                else if length args = 3 then ev (args ! 2) visited
                else Some (Inr (VBool False), visited)))"

definition toUpperCase :: "string \<Rightarrow> string" where
  "toUpperCase s = map (\<lambda>c. if 97 \<le> charCode c \<and> charCode c \<le> 122 then char_of (charCode c - 32) else c) s"

definition evaluateFunction :: "host \<Rightarrow> evaluator \<Rightarrow> string \<Rightarrow> formulaAst list \<Rightarrow> visitedSet
    \<Rightarrow> cellValue eval" where
  "evaluateFunction h ev name args visited =
     (let upperName = toUpperCase name
      in if upperName = ''SUM'' then evaluateSum h ev args visited
         else if upperName = ''AVERAGE'' \<or> upperName = ''AVG'' then evaluateAverage h ev args visited
         else if upperName = ''MIN'' then evaluateMin h ev args visited
         else if upperName = ''MAX'' then evaluateMax h ev args visited
         else if upperName = ''COUNT'' then evaluateCount ev args visited
         else if upperName = ''IF'' then evaluateIf ev args visited
         else Some (Inl (''Unknown function: '' @ name), visited))"

definition toNumber :: "host \<Rightarrow> cellValue \<Rightarrow> jsnum" where
  "toNumber h v =
     (case v of
        VNum n \<Rightarrow> n
      | VStr s \<Rightarrow> (if numberOfString h s = NaN then Fin 0 else numberOfString h s)
      | VBool b \<Rightarrow> (if b then Fin 1 else Fin 0)
      | _ \<Rightarrow> Fin 0)"

text \<open>\<open>===\<close> on run-time values. Two arrays are never the same object: each comes from
  its own call of \<open>evaluateRange\<close>.\<close>

fun strictEq :: "cellValue \<Rightarrow> cellValue \<Rightarrow> bool" where
  "strictEq (VNum a) (VNum b) = jsNumEq a b"
| "strictEq (VStr a) (VStr b) = (a = b)"
| "strictEq (VBool a) (VBool b) = (a = b)"
| "strictEq VNull VNull = True"
| "strictEq _ _ = False"

definition evaluateBinaryOp :: "host \<Rightarrow> evaluator \<Rightarrow> string \<Rightarrow> formulaAst \<Rightarrow> formulaAst \<Rightarrow> visitedSet
    \<Rightarrow> cellValue eval" where
  "evaluateBinaryOp h ev op left right visited =
     andThen (ev left visited) (\<lambda>leftVal visited.
     andThen (ev right visited) (\<lambda>rightVal visited.
       (let leftNum = toNumber h leftVal; rightNum = toNumber h rightVal
        in if op = ''+'' then Some (Inr (VNum (jsAdd leftNum rightNum)), visited)
           else if op = ''-'' then Some (Inr (VNum (jsSub leftNum rightNum)), visited)
           else if op = ''*'' then Some (Inr (VNum (jsMul leftNum rightNum)), visited)
           else if op = ''/'' then
             (if rightNum = Fin 0 then Some (Inl ''Division by zero'', visited)
              else Some (Inr (VNum (jsDiv leftNum rightNum)), visited))
           else if op = ''^'' then Some (Inr (VNum (mathPow h leftNum rightNum)), visited)
           else if op = ''='' then Some (Inr (VBool (strictEq leftVal rightVal)), visited)
           else if op = ''<>'' then Some (Inr (VBool (\<not> strictEq leftVal rightVal)), visited)
           else if op = ''<'' then Some (Inr (VBool (jsLess leftNum rightNum)), visited)
           else if op = ''<='' then Some (Inr (VBool (jsLessEq leftNum rightNum)), visited)
           else if op = ''>'' then Some (Inr (VBool (jsLess rightNum leftNum)), visited)
           else if op = ''>='' then Some (Inr (VBool (jsLessEq rightNum leftNum)), visited)
           else Some (Inl (''Unknown binary operator: '' @ op), visited))))"

text \<open>The body of \<open>evaluateAst\<close>, one case per node type.\<close>

definition evaluateNode :: "host \<Rightarrow> sheet \<Rightarrow> evaluator \<Rightarrow> formulaAst \<Rightarrow> visitedSet \<Rightarrow> cellValue eval" where
  "evaluateNode h sh ev ast visited =
     (case ast of
        NumberLiteral n \<Rightarrow> Some (Inr (VNum n), visited)
      | StringLiteral s \<Rightarrow> Some (Inr (VStr s), visited)
      | BooleanLiteral b \<Rightarrow> Some (Inr (VBool b), visited)
      | CellRef address absCol absRow \<Rightarrow> evaluateCellRef ev sh address visited
      | RangeRef start end \<Rightarrow>
          andThen (evaluateRange ev sh start end visited)
            (\<lambda>values visited. Some (Inr (VArr values), visited))
      | FunctionCall name args \<Rightarrow> evaluateFunction h ev name args visited
      | BinaryOp op left right \<Rightarrow> evaluateBinaryOp h ev op left right visited
      | UnaryOp op operand \<Rightarrow>
          andThen (ev operand visited) (\<lambda>operand visited.
            if op = ''-'' then Some (Inr (VNum (case operand of VNum n \<Rightarrow> jsNeg n | _ \<Rightarrow> Fin 0)), visited)
            else if op = ''+'' then Some (Inr (VNum (case operand of VNum n \<Rightarrow> n | _ \<Rightarrow> Fin 0)), visited)
            else Some (Inl (''Unknown unary operator: '' @ op), visited)))"

primrec evaluateAst :: "host \<Rightarrow> sheet \<Rightarrow> nat \<Rightarrow> formulaAst \<Rightarrow> visitedSet \<Rightarrow> cellValue eval" where
  "evaluateAst h sh 0 = (\<lambda>ast visited. None)"
| "evaluateAst h sh (Suc fuel) = evaluateNode h sh (evaluateAst h sh fuel)"

definition startsWith :: "string \<Rightarrow> string \<Rightarrow> bool" where
  "startsWith s p = (take (length p) s = p)"

definition evaluateCell :: "host \<Rightarrow> nat \<Rightarrow> sheet \<Rightarrow> cellAddress \<Rightarrow> evalResult option" where
  "evaluateCell h fuel sh address =
     (case map_of (cells sh) address of
        None \<Rightarrow> Some \<lparr> resultValue = VStr '''', error = None \<rparr>
      | Some (LiteralCell v) \<Rightarrow> Some \<lparr> resultValue = v, error = None \<rparr>
      | Some (ErrorCell code message) \<Rightarrow> Some \<lparr> resultValue = VNull, error = Some (code, message) \<rparr>
      | Some (FormulaCell src ast) \<Rightarrow>
          (case evaluateAst h sh fuel ast {address} of
             None \<Rightarrow> None
           | Some (Inr v, visited) \<Rightarrow> Some \<lparr> resultValue = v, error = None \<rparr>
           | Some (Inl errorMessage, visited) \<Rightarrow>
               (if startsWith errorMessage ''CIRC:''
                then Some \<lparr> resultValue = VNull, error = Some (CYCLE, drop 5 errorMessage) \<rparr>
                else Some \<lparr> resultValue = VNull, error = Some (PARSE, errorMessage) \<rparr>)))"

subsection \<open>Dependency extraction, whole-sheet evaluation and single-cell update\<close>

text \<open>
  The engine's state is its \<open>depGraph\<close>; the methods that use it take the graph and
  return the new one. \<open>charCodeAt(0)\<close> and \<open>parseInt\<close> are \<open>None\<close> where JavaScript
  gives \<open>NaN\<close>, and a \<open>for\<close> loop with a \<open>NaN\<close> bound does not run.
\<close>

definition charCodeAt0 :: "string \<Rightarrow> int option" where
  "charCodeAt0 s = (case s of [] \<Rightarrow> None | c # _ \<Rightarrow> Some (charCode c))"

definition rangeDependencies :: "dependencyGraph \<Rightarrow> cellAddress \<Rightarrow> cellAddress \<Rightarrow> cellAddress
    \<Rightarrow> dependencyGraph" where
  "rangeDependencies g start end fromCell =
     (case (charCodeAt0 start, parseInt (drop 1 start), charCodeAt0 end, parseInt (drop 1 end)) of
        (Some sc, Some sr, Some ec, Some er) \<Rightarrow>
          fold (\<lambda>c g. fold (\<lambda>r g. addDependency g fromCell
                                      (char_of (65 + c) # numToString (toDouble (r + 1))))
                         [toDouble (sr - 1) .. toDouble (er - 1)] g)
               [sc - 65 .. ec - 65] g
      | _ \<Rightarrow> g)"

fun extractDependencies :: "dependencyGraph \<Rightarrow> formulaAst \<Rightarrow> cellAddress \<Rightarrow> dependencyGraph" where
  "extractDependencies g (CellRef address absCol absRow) fromCell = addDependency g fromCell address"
| "extractDependencies g (RangeRef start end) fromCell = rangeDependencies g start end fromCell"
| "extractDependencies g (BinaryOp op left right) fromCell =
     extractDependencies (extractDependencies g left fromCell) right fromCell"
| "extractDependencies g (UnaryOp op operand) fromCell = extractDependencies g operand fromCell"
| "extractDependencies g (FunctionCall name args) fromCell =
     fold (\<lambda>arg g. extractDependencies g arg fromCell) args g"
| "extractDependencies g (NumberLiteral n) fromCell = g"
| "extractDependencies g (StringLiteral s) fromCell = g"
| "extractDependencies g (BooleanLiteral b) fromCell = g"

text \<open>The evaluation loop shared by \<open>evaluateSheet\<close> and \<open>updateCell\<close>: call
  \<open>evaluateCell\<close> on each address in order and keep the address with its result.\<close>

fun evaluateAll :: "host \<Rightarrow> nat \<Rightarrow> sheet \<Rightarrow> cellAddress list \<Rightarrow> (cellAddress \<times> evalResult) list option" where
  "evaluateAll h fuel sh [] = Some []"
| "evaluateAll h fuel sh (address # rest) =
     (case evaluateCell h fuel sh address of
        None \<Rightarrow> None
      | Some r \<Rightarrow> (case evaluateAll h fuel sh rest of
                     None \<Rightarrow> None
                   | Some rs \<Rightarrow> Some ((address, r) # rs)))"

definition isFormula :: "cell \<Rightarrow> bool" where
  "isFormula c = (case c of FormulaCell src ast \<Rightarrow> True | _ \<Rightarrow> False)"

text \<open>\<open>evaluateSheet\<close> returns the \<open>results\<close> map; the graph it leaves in the engine
  is the first component.\<close>

definition evaluateSheet :: "host \<Rightarrow> nat \<Rightarrow> sheet
    \<Rightarrow> (dependencyGraph \<times> (cellAddress \<times> evalResult) list) option" where
  "evaluateSheet h fuel sh =
     (let formulaCells = map fst (filter (\<lambda>(address, c). isFormula c) (cells sh));
          g = fold (\<lambda>(address, c) g. case c of FormulaCell src ast \<Rightarrow> extractDependencies g ast address
                                               | _ \<Rightarrow> g)
                (cells sh) newDependencyGraph;
          evaluationOrder = getEvaluationOrder g formulaCells
      in case evaluateAll h fuel sh evaluationOrder of
           None \<Rightarrow> None
         | Some rs \<Rightarrow> Some (g, fold (\<lambda>(address, r) results. AList.update address r results) rs []))"

text \<open>
  \<open>updateCell\<close> returns the new sheet. The source drops the results of the
  re-evaluations of step 4; the model keeps them, in the order of the calls, as the
  record of which cells were re-evaluated. \<open>now\<close> is the clock's \<open>new Date()\<close>.
\<close>

record updateOutcome =
  newSheet :: sheet
  newGraph :: dependencyGraph
  reevaluated :: "(cellAddress \<times> evalResult) list"

definition updateCell :: "host \<Rightarrow> nat \<Rightarrow> nat \<Rightarrow> dependencyGraph \<Rightarrow> sheet \<Rightarrow> cellAddress \<Rightarrow> cell
    \<Rightarrow> updateOutcome option" where
  "updateCell h fuel now g sh address c =
     (let sh' = sh\<lparr> cells := AList.update address c (cells sh), updatedAt := now \<rparr>;
          g1 = removeDependencies g address;
          g2 = (case c of FormulaCell src ast \<Rightarrow> extractDependencies g1 ast address | _ \<Rightarrow> g1);
          toRecalculate = getDependents g2 address
      in if length toRecalculate > 0
         then (case evaluateAll h fuel sh' (getEvaluationOrder g2 toRecalculate) of
                 None \<Rightarrow> None
               | Some rs \<Rightarrow> Some \<lparr> newSheet = sh', newGraph = g2, reevaluated = rs \<rparr>)
         else Some \<lparr> newSheet = sh', newGraph = g2, reevaluated = [] \<rparr>)"

subsection \<open>Example sheets\<close>

definition mkSheet :: "(cellAddress \<times> cell) list \<Rightarrow> sheet" where
  "mkSheet cs = \<lparr> sheetId = ''s1'', sheetName = ''Sheet'', sheetRows = 20, sheetCols = 10,
                 cells = cs, updatedAt = 0 \<rparr>"

text \<open>A host for closed examples. No example below calls \<open>Number\<close> on a string or
  \<open>Math.pow\<close>, and each is a theorem for every host.\<close>

definition exampleHost :: host where
  "exampleHost = \<lparr> numberOfString = (\<lambda>s. NaN), mathPow = (\<lambda>a b. NaN) \<rparr>"

text \<open>A1 = 1, A2 = 2, A3 = \<open>=SUM(A1:A2)\<close>.\<close>

definition sumSheet :: sheet where
  "sumSheet = mkSheet [(''A1'', LiteralCell (VNum (Fin 1))), (''A2'', LiteralCell (VNum (Fin 2))),
      (''A3'', FormulaCell ''SUM(A1:A2)'' (FunctionCall ''SUM'' [RangeRef ''A1'' ''A2'']))]"

text \<open>The graph that \<open>evaluateSheet\<close> leaves in the engine for that sheet.\<close>

definition sumGraph :: dependencyGraph where
  "sumGraph = \<lparr> dependencies = [(''A3'', [''A1'', ''A2''])],
                dependents = [(''A1'', [''A3'']), (''A2'', [''A3''])] \<rparr>"

text \<open>A string literal of a formula, in its double quotes.\<close>

definition quoted :: "string \<Rightarrow> string" where
  "quoted s = CHR 0x22 # s @ [CHR 0x22]"

text \<open>A1 = \<open>=1/0\<close> and B1 = \<open>=IF(1/0,x,y)\<close> with \<open>x\<close> and \<open>y\<close> string
  literals.\<close>

definition divSheet :: sheet where
  "divSheet = mkSheet
     [(''A1'', FormulaCell ''1/0'' (BinaryOp ''/'' (NumberLiteral (Fin 1)) (NumberLiteral (Fin 0)))),
      (''B1'', FormulaCell (''IF(1/0,'' @ quoted ''x'' @ '','' @ quoted ''y'' @ '')'')
                 (FunctionCall ''IF'' [BinaryOp ''/'' (NumberLiteral (Fin 1)) (NumberLiteral (Fin 0)),
                                       StringLiteral ''x'', StringLiteral ''y'']))]"



text \<open>Nothing but A3 = \<open>=SUM(A1:A2)\<close>: the range is entirely empty.\<close>

definition emptyRangeSheet :: sheet where
  "emptyRangeSheet = mkSheet
     [(''A3'', FormulaCell ''SUM(A1:A2)'' (FunctionCall ''SUM'' [RangeRef ''A1'' ''A2'']))]"





text \<open>A1 = 1, B1 = 2, A2 = 3, B2 = 4, C1 = \<open>=SUM(B2:A1)\<close>, C2 = \<open>=SUM(A1:B2)\<close>.\<close>

definition squareSheet :: sheet where
  "squareSheet = mkSheet
     [(''A1'', LiteralCell (VNum (Fin 1))), (''B1'', LiteralCell (VNum (Fin 2))),
      (''A2'', LiteralCell (VNum (Fin 3))), (''B2'', LiteralCell (VNum (Fin 4))),
      (''C1'', FormulaCell ''SUM(B2:A1)'' (FunctionCall ''SUM'' [RangeRef ''B2'' ''A1''])),
      (''C2'', FormulaCell ''SUM(A1:B2)'' (FunctionCall ''SUM'' [RangeRef ''A1'' ''B2'']))]"

text \<open>The sibling of \<open>evaluateRange\<close> in lib/cellAddress: \<open>getCellsInRange\<close>, which
  normalises the corners with \<open>Math.min\<close> and \<open>Math.max\<close>.\<close>

fun collect :: "('b \<Rightarrow> 'a result) \<Rightarrow> 'b list \<Rightarrow> 'a list result" where
  "collect f [] = Inr []"
| "collect f (x # xs) =
     (case f x of
        Inl e \<Rightarrow> Inl e
      | Inr y \<Rightarrow> (case collect f xs of Inl e \<Rightarrow> Inl e | Inr ys \<Rightarrow> Inr (y # ys)))"

definition getCellsInRange :: "cellAddress \<Rightarrow> cellAddress \<Rightarrow> cellAddress list result" where
  "getCellsInRange startAddr endAddr =
     (case parseAddress startAddr of
        Inl e \<Rightarrow> Inl e
      | Inr startParsed \<Rightarrow>
     (case parseAddress endAddr of
        Inl e \<Rightarrow> Inl e
      | Inr endParsed \<Rightarrow>
          (let minCol = min (col startParsed) (col endParsed);
               maxCol = max (col startParsed) (col endParsed);
               minRow = min (row startParsed) (row endParsed);
               maxRow = max (row startParsed) (row endParsed)
           in collect (\<lambda>(c, r). formatAddress c r False False)
                (concat (map (\<lambda>c. map (\<lambda>r. (c, r)) [minRow .. maxRow]) [minCol .. maxCol])))))"

section \<open>Lexer and parser (lib/parser)\<close>

datatype tokenType =
  NUMBER | STRING | CELL_REF | RANGE | FUNCTION | OPERATOR | LPAREN | RPAREN | COMMA | COLON | EOF

fun tokenTypeName :: "tokenType \<Rightarrow> string" where
  "tokenTypeName NUMBER = ''NUMBER''"
| "tokenTypeName STRING = ''STRING''"
| "tokenTypeName CELL_REF = ''CELL_REF''"
| "tokenTypeName RANGE = ''RANGE''"
| "tokenTypeName FUNCTION = ''FUNCTION''"
| "tokenTypeName OPERATOR = ''OPERATOR''"
| "tokenTypeName LPAREN = ''LPAREN''"
| "tokenTypeName RPAREN = ''RPAREN''"
| "tokenTypeName COMMA = ''COMMA''"
| "tokenTypeName COLON = ''COLON''"
| "tokenTypeName EOF = ''EOF''"

record token =
  tokType :: tokenType
  tokValue :: string
  tokPos :: nat

record lexer =
  lexInput :: string
  lexPos :: nat

text \<open>The character classes of the lexer's regular expressions, on 8-bit characters:
  \<open>\s\<close>, \<open>[a-zA-Z]\<close> and \<open>[a-zA-Z0-9]\<close> (\<open>\d\<close> is \<open>isDigit\<close>).\<close>

definition isSpace :: "char \<Rightarrow> bool" where
  "isSpace c = (charCode c \<in> {9, 10, 11, 12, 13, 32, 160})"

definition isLetter :: "char \<Rightarrow> bool" where
  "isLetter c = (isUpper c \<or> (97 \<le> charCode c \<and> charCode c \<le> 122))"

definition isAlphaNumeric :: "char \<Rightarrow> bool" where
  "isAlphaNumeric c = (isLetter c \<or> isDigit c)"

text \<open>\<open>/^\$?[A-Z]+\$?\d+$/\<close>, scanned as \<open>matchAddress\<close> scans its expression.\<close>

definition isCellReference :: "string \<Rightarrow> bool" where
  "isCellReference v =
     (let r1 = (case v of c # r \<Rightarrow> if c = CHR ''$'' then r else v | [] \<Rightarrow> v);
          colStr = takeWhile isUpper r1;
          r2 = dropWhile isUpper r1;
          rowStr = (case r2 of c # r \<Rightarrow> if c = CHR ''$'' then r else r2 | [] \<Rightarrow> r2)
      in colStr \<noteq> [] \<and> rowStr \<noteq> [] \<and> list_all isDigit rowStr)"

definition slice :: "string \<Rightarrow> nat \<Rightarrow> nat \<Rightarrow> string" where
  "slice s i j = take (j - i) (drop i s)"

definition skipWhitespace :: "lexer \<Rightarrow> lexer" where
  "skipWhitespace l = l\<lparr> lexPos := lexPos l + length (takeWhile isSpace (drop (lexPos l) (lexInput l))) \<rparr>"

text \<open>The loop of \<open>readNumber\<close> on the rest of the input: how many characters it
  takes.\<close>

fun scanNumber :: "string \<Rightarrow> bool \<Rightarrow> nat" where
  "scanNumber [] hasDecimal = 0"
| "scanNumber (c # cs) hasDecimal =
     (if isDigit c then Suc (scanNumber cs hasDecimal)
      else if c = CHR ''.'' \<and> \<not> hasDecimal then Suc (scanNumber cs True)
      else 0)"

definition readNumber :: "lexer \<Rightarrow> token \<times> lexer" where
  "readNumber l =
     (let start = lexPos l;
          pos' = start + scanNumber (drop start (lexInput l)) False
      in (\<lparr> tokType = NUMBER, tokValue = slice (lexInput l) start pos', tokPos = start \<rparr>,
          l\<lparr> lexPos := pos' \<rparr>))"

text \<open>The loop of \<open>readString\<close> on the input after the opening quote: the offset of
  the closing quote, or \<open>None\<close> when the loop runs to the end of the input.\<close>

fun scanString :: "string \<Rightarrow> nat \<Rightarrow> nat option" where
  "scanString [] k = None"
| "scanString (c # cs) k =
     (if c = CHR 0x22 then Some k
      else if c = CHR 0x5C then (case cs of [] \<Rightarrow> None | c' # cs' \<Rightarrow> scanString cs' (k + 2))
      else scanString cs (k + 1))"

definition readString :: "lexer \<Rightarrow> (token \<times> lexer) result" where
  "readString l =
     (let start = lexPos l
      in case scanString (drop (start + 1) (lexInput l)) 0 of
           None \<Rightarrow> Inl ''Unterminated string literal''
         | Some k \<Rightarrow>
             (let pos' = start + 1 + k + 1
              in Inr (\<lparr> tokType = STRING, tokValue = slice (lexInput l) (start + 1) (pos' - 1),
                         tokPos = start \<rparr>,
                      l\<lparr> lexPos := pos' \<rparr>)))"

definition readIdentifier :: "lexer \<Rightarrow> token \<times> lexer" where
  "readIdentifier l =
     (let start = lexPos l;
          pos' = start + 1 + length (takeWhile (\<lambda>c. isAlphaNumeric c \<or> c = CHR ''$'')
                                       (drop (start + 1) (lexInput l)));
          v = slice (lexInput l) start pos'
      in (\<lparr> tokType = (if isCellReference v then CELL_REF else FUNCTION), tokValue = v, tokPos = start \<rparr>,
          l\<lparr> lexPos := pos' \<rparr>))"

text \<open>\<open>peek(offset)\<close>: the character, or \<open>None\<close> for the empty string past the end.\<close>

definition peek :: "lexer \<Rightarrow> nat \<Rightarrow> char option" where
  "peek l offset =
     (if lexPos l + offset < length (lexInput l) then Some (lexInput l ! (lexPos l + offset)) else None)"

definition single :: "lexer \<Rightarrow> tokenType \<Rightarrow> string \<Rightarrow> (token \<times> lexer) result" where
  "single l t v =
     Inr (\<lparr> tokType = t, tokValue = v, tokPos = lexPos l \<rparr>, l\<lparr> lexPos := lexPos l + length v \<rparr>)"

definition nextToken :: "lexer \<Rightarrow> (token \<times> lexer) result" where
  "nextToken l0 =
     (let l = skipWhitespace l0
      in if lexPos l \<ge> length (lexInput l)
         then Inr (\<lparr> tokType = EOF, tokValue = '''', tokPos = lexPos l \<rparr>, l)
         else
           (let char = lexInput l ! lexPos l
            in if isDigit char \<or> (char = CHR ''.'' \<and> (case peek l 1 of Some d \<Rightarrow> isDigit d | None \<Rightarrow> False))
               then Inr (readNumber l)
               else if char = CHR 0x22 then readString l
               else if isLetter char then Inr (readIdentifier l)
               else if char = CHR ''('' then single l LPAREN ''(''
               else if char = CHR '')'' then single l RPAREN '')''
               else if char = CHR '','' then single l COMMA '',''
               else if char = CHR '':'' then single l COLON '':''
               else if char \<in> {CHR ''+'', CHR ''-'', CHR ''*'', CHR ''/'', CHR ''^''} then single l OPERATOR [char]
               else if char = CHR ''='' then single l OPERATOR ''=''
               else if char = CHR ''<'' then
                 (if peek l 1 = Some CHR ''='' then single l OPERATOR ''<=''
                  else if peek l 1 = Some CHR ''>'' then single l OPERATOR ''<>''
                  else single l OPERATOR ''<'')
               else if char = CHR ''>'' then
                 (if peek l 1 = Some CHR ''='' then single l OPERATOR ''>=''
                  else single l OPERATOR ''>'')
               else Inl (''Unexpected character: '' @ [char] @ '' at position ''
                           @ numToString (int (lexPos l)))))"

record parser =
  parserLexer :: lexer
  current :: token

definition newParser :: "string \<Rightarrow> parser result" where
  "newParser inp =
     (case nextToken \<lparr> lexInput = inp, lexPos = 0 \<rparr> of
        Inl e \<Rightarrow> Inl e
      | Inr (t, l) \<Rightarrow> Inr \<lparr> parserLexer = l, current = t \<rparr>)"

definition advance :: "parser \<Rightarrow> parser result" where
  "advance p =
     (case nextToken (parserLexer p) of
        Inl e \<Rightarrow> Inl e
      | Inr (t, l) \<Rightarrow> Inr \<lparr> parserLexer = l, current = t \<rparr>)"

definition expect :: "parser \<Rightarrow> tokenType \<Rightarrow> parser result" where
  "expect p t =
     (if tokType (current p) \<noteq> t
      then Inl (''Expected '' @ tokenTypeName t @ '' but got '' @ tokenTypeName (tokType (current p)))
      else advance p)"

text \<open>The table \<open>PRECEDENCE\<close>; \<open>None\<close> for an operator it does not hold.\<close>

definition PRECEDENCE :: "string \<Rightarrow> nat option" where
  "PRECEDENCE = map_of [(''='', 1), (''<>'', 1), (''<'', 2), (''<='', 2), (''>'', 2), (''>='', 2),
                         (''+'', 3), (''-'', 3), (''*'', 4), (''/'', 4), (''^'', 5)]"

text \<open>\<open>parseFloat\<close> on the value of a NUMBER token: digits with at most one point.\<close>

definition parseFloat :: "string \<Rightarrow> jsnum" where
  "parseFloat s =
     (let ip = takeWhile isDigit s;
          fp = takeWhile isDigit (drop 1 (dropWhile isDigit s))
      in Fin (real_of_int (digitsValue ip 0) + real_of_int (digitsValue fp 0) / 10 ^ length fp))"

text \<open>
  The parser's three mutually recursive methods and their two \<open>while\<close> loops
  (\<open>parseOperators\<close> in \<open>parseExpression\<close>, \<open>parseArguments\<close> in
  \<open>parseFunction\<close>). A result is a thrown message or the value with the parser after
  the call; the recursion is bounded by fuel, and \<open>None\<close> means that it ran out.
\<close>

type_synonym 'a parse = "(string + 'a \<times> parser) option"

fun parseExpression :: "nat \<Rightarrow> nat \<Rightarrow> parser \<Rightarrow> formulaAst parse"
  and parseOperators :: "nat \<Rightarrow> nat \<Rightarrow> formulaAst \<Rightarrow> parser \<Rightarrow> formulaAst parse"
  and parsePrimary :: "nat \<Rightarrow> parser \<Rightarrow> formulaAst parse"
  and parseArguments :: "nat \<Rightarrow> formulaAst list \<Rightarrow> parser \<Rightarrow> (formulaAst list) parse"
where
  "parseExpression 0 minPrecedence p = None"
| "parseExpression (Suc n) minPrecedence p =
     (case parsePrimary n p of
        None \<Rightarrow> None
      | Some (Inl e) \<Rightarrow> Some (Inl e)
      | Some (Inr (left, p')) \<Rightarrow> parseOperators n minPrecedence left p')"
| "parseOperators 0 minPrecedence left p = None"
| "parseOperators (Suc n) minPrecedence left p =
     (if tokType (current p) = OPERATOR
      then (case PRECEDENCE (tokValue (current p)) of
              None \<Rightarrow> Some (Inr (left, p))
            | Some precedence \<Rightarrow>
                if precedence = 0 \<or> precedence < minPrecedence then Some (Inr (left, p))
                else (case advance p of
                        Inl e \<Rightarrow> Some (Inl e)
                      | Inr p1 \<Rightarrow>
                          (case parseExpression n (precedence + 1) p1 of
                             None \<Rightarrow> None
                           | Some (Inl e) \<Rightarrow> Some (Inl e)
                           | Some (Inr (right, p2)) \<Rightarrow>
                               parseOperators n minPrecedence
                                 (BinaryOp (tokValue (current p)) left right) p2)))
      else Some (Inr (left, p)))"
| "parsePrimary 0 p = None"
| "parsePrimary (Suc n) p =
     (case tokType (current p) of
        NUMBER \<Rightarrow>
          (case advance p of
             Inl e \<Rightarrow> Some (Inl e)
           | Inr p1 \<Rightarrow> Some (Inr (NumberLiteral (parseFloat (tokValue (current p))), p1)))
      | STRING \<Rightarrow>
          (case advance p of
             Inl e \<Rightarrow> Some (Inl e)
           | Inr p1 \<Rightarrow> Some (Inr (StringLiteral (tokValue (current p)), p1)))
      | CELL_REF \<Rightarrow>
          (let cellRef = tokValue (current p)
           in case advance p of
                Inl e \<Rightarrow> Some (Inl e)
              | Inr p1 \<Rightarrow>
                  if tokType (current p1) = COLON
                  then (case advance p1 of
                          Inl e \<Rightarrow> Some (Inl e)
                        | Inr p2 \<Rightarrow>
                            if tokType (current p2) \<noteq> CELL_REF
                            then Some (Inl ''Expected cell reference after colon'')
                            else (let endRef = tokValue (current p2)
                                  in case advance p2 of
                                       Inl e \<Rightarrow> Some (Inl e)
                                     | Inr p3 \<Rightarrow>
                                         (case toCellAddress cellRef of
                                            Inl e \<Rightarrow> Some (Inl e)
                                          | Inr start \<Rightarrow>
                                              (case toCellAddress endRef of
                                                 Inl e \<Rightarrow> Some (Inl e)
                                               | Inr end \<Rightarrow> Some (Inr (RangeRef start end, p3))))))
                  else (case toCellAddress cellRef of
                          Inl e \<Rightarrow> Some (Inl e)
                        | Inr address \<Rightarrow>
                            Some (Inr (CellRef address (CHR ''$'' \<in> set cellRef)
                                         (CHR ''$'' \<in> set cellRef), p1))))
      | FUNCTION \<Rightarrow>
          (let funcName = tokValue (current p)
           in case advance p of
                Inl e \<Rightarrow> Some (Inl e)
              | Inr p1 \<Rightarrow>
                  (case expect p1 LPAREN of
                     Inl e \<Rightarrow> Some (Inl e)
                   | Inr p2 \<Rightarrow>
                       (case (if tokType (current p2) \<noteq> RPAREN
                              then (case parseExpression n 0 p2 of
                                      None \<Rightarrow> None
                                    | Some (Inl e) \<Rightarrow> Some (Inl e)
                                    | Some (Inr (arg, p3)) \<Rightarrow> parseArguments n [arg] p3)
                              else Some (Inr ([], p2))) of
                          None \<Rightarrow> None
                        | Some (Inl e) \<Rightarrow> Some (Inl e)
                        | Some (Inr (args, p4)) \<Rightarrow>
                            (case expect p4 RPAREN of
                               Inl e \<Rightarrow> Some (Inl e)
                             | Inr p5 \<Rightarrow> Some (Inr (FunctionCall funcName args, p5))))))
      | LPAREN \<Rightarrow>
          (case advance p of
             Inl e \<Rightarrow> Some (Inl e)
           | Inr p1 \<Rightarrow>
               (case parseExpression n 0 p1 of
                  None \<Rightarrow> None
                | Some (Inl e) \<Rightarrow> Some (Inl e)
                | Some (Inr (expr, p2)) \<Rightarrow>
                    (case expect p2 RPAREN of
                       Inl e \<Rightarrow> Some (Inl e)
                     | Inr p3 \<Rightarrow> Some (Inr (expr, p3)))))
      | OPERATOR \<Rightarrow>
          (if tokValue (current p) = ''-'' \<or> tokValue (current p) = ''+''
           then (case advance p of
                   Inl e \<Rightarrow> Some (Inl e)
                 | Inr p1 \<Rightarrow>
                     (case parsePrimary n p1 of
                        None \<Rightarrow> None
                      | Some (Inl e) \<Rightarrow> Some (Inl e)
                      | Some (Inr (operand, p2)) \<Rightarrow>
                          Some (Inr (UnaryOp (tokValue (current p)) operand, p2))))
           else Some (Inl (''Unexpected operator: '' @ tokValue (current p))))
      | _ \<Rightarrow> Some (Inl (''Unexpected token: '' @ tokValue (current p))))"
| "parseArguments 0 args p = None"
| "parseArguments (Suc n) args p =
     (if tokType (current p) = COMMA
      then (case advance p of
              Inl e \<Rightarrow> Some (Inl e)
            | Inr p1 \<Rightarrow>
                (case parseExpression n 0 p1 of
                   None \<Rightarrow> None
                 | Some (Inl e) \<Rightarrow> Some (Inl e)
                 | Some (Inr (arg, p2)) \<Rightarrow> parseArguments n (args @ [arg]) p2))
      else Some (Inr (args, p)))"

definition parse :: "nat \<Rightarrow> parser \<Rightarrow> formulaAst result option" where
  "parse fuel p =
     (case parseExpression fuel 0 p of
        None \<Rightarrow> None
      | Some (Inl e) \<Rightarrow> Some (Inl e)
      | Some (Inr (r, p')) \<Rightarrow>
          if tokType (current p') \<noteq> EOF
          then Some (Inl (''Unexpected token: '' @ tokValue (current p')))
          else Some (Inr r))"

definition parseFormula :: "nat \<Rightarrow> string \<Rightarrow> formulaAst result option" where
  "parseFormula fuel inp =
     (let formula = (if startsWith inp ''='' then drop 1 inp else inp)
      in case newParser formula of
           Inl e \<Rightarrow> Some (Inl e)
         | Inr p \<Rightarrow> parse fuel p)"

text \<open>Every \<open>ref\<close> node of a tree has its two \<open>absolute\<close> flags equal, and set
  exactly when the address contains a dollar sign.\<close>

fun refFlagsEqual :: "formulaAst \<Rightarrow> bool" where
  "refFlagsEqual (CellRef address absCol absRow) =
     (absCol = absRow \<and> absCol = (CHR ''$'' \<in> set address))"
| "refFlagsEqual (FunctionCall name args) = list_all refFlagsEqual args"
| "refFlagsEqual (BinaryOp op left right) = (refFlagsEqual left \<and> refFlagsEqual right)"
| "refFlagsEqual (UnaryOp op operand) = refFlagsEqual operand"
| "refFlagsEqual (NumberLiteral n) = True"
| "refFlagsEqual (StringLiteral s) = True"
| "refFlagsEqual (BooleanLiteral b) = True"
| "refFlagsEqual (RangeRef start end) = True"

section \<open>Predicates of the statements\<close>

text \<open>An evaluation keeps the visited set when it returns the set it was given,
  whether it returns a value or throws.\<close>

definition keeps :: "visitedSet \<Rightarrow> 'a eval \<Rightarrow> bool" where
  "keeps v m = (\<forall>r v'. m = Some (r, v') \<longrightarrow> v' = v)"

definition restores :: "evaluator \<Rightarrow> bool" where
  "restores ev = (\<forall>ast v. keeps v (ev ast v))"

text \<open>Two evaluations agree when the second returns whatever the first returns; an evaluator extends another when it agrees with it everywhere.\<close>

definition agrees :: "'a eval \<Rightarrow> 'a eval \<Rightarrow> bool" where
  "agrees m m' = (\<forall>r. m = Some r \<longrightarrow> m' = Some r)"

definition extends :: "evaluator \<Rightarrow> evaluator \<Rightarrow> bool" where
  "extends ev ev' = (\<forall>ast v. agrees (ev ast v) (ev' ast v))"

text \<open>The addresses of the formula cells of a sheet.\<close>

definition formulaCells :: "sheet \<Rightarrow> cellAddress set" where
  "formulaCells sh = {a. \<exists>src ast. map_of (cells sh) a = Some (FormulaCell src ast)}"

text \<open>The input that a lexer has not read yet.\<close>

definition remaining :: "lexer \<Rightarrow> nat" where
  "remaining l = length (lexInput l) - lexPos l"

text \<open>The tokens still to be read by a parser: the input left to the lexer, and the
  current token unless it is the end of input.\<close>

definition tokensLeft :: "parser \<Rightarrow> nat" where
  "tokensLeft p = remaining (parserLexer p) + (if tokType (current p) = EOF then 0 else 1)"


definition yields :: "host \<Rightarrow> sheet \<Rightarrow> formulaAst \<Rightarrow> visitedSet \<Rightarrow> cellValue \<Rightarrow> bool" where
  "yields h sh ast visited v = (\<exists>fuel. evaluateAst h sh fuel ast visited = Some (Inr v, visited))"


text \<open>The addresses that \<open>evaluateRange\<close> formats, in the order of its two loops (row by
  row), each the result of \<open>formatCellAddress\<close>.\<close>

definition rangeAddresses :: "parsedCell \<Rightarrow> parsedCell \<Rightarrow> cellAddress result list" where
  "rangeAddresses s e =
     concat (map (\<lambda>r. map (\<lambda>c. formatCellAddress c r) [pcol s .. pcol e]) [prow s .. prow e])"

text \<open>The functions that evaluate all their arguments, in order.\<close>

definition isArgumentList :: "string \<Rightarrow> bool" where
  "isArgumentList name =
     (toUpperCase name \<in> {''SUM'', ''AVERAGE'', ''AVG'', ''MIN'', ''MAX'', ''COUNT''})"

text \<open>
  \<open>reaches h sh ast visited b\<close>: the evaluation of \<open>ast\<close>, started while the cells of
  \<open>visited\<close> are under evaluation, comes to a reference to \<open>b\<close> while \<open>b\<close> is under
  evaluation, and everything that it evaluates before has returned a value. There is one
  rule for each place where the evaluator goes on to a subtree or to another cell:
  a reference to a formula cell leads into the formula of that cell, with the cell added
  to the set; a range leads to each of its cells once the cells before it have evaluated;
  a unary operator leads to its operand; a binary operator to its left operand, and to
  its right operand once the left has evaluated; SUM, AVERAGE, AVG, MIN, MAX and COUNT
  lead to each argument once the arguments before it have evaluated; IF (with two or
  three arguments) leads to its condition and then to the branch that the value of the
  condition selects, and to nothing else. The address of a reference is compared with the
  cells under evaluation as it is written, \<open>$\<close> signs included.
\<close>

inductive reaches :: "host \<Rightarrow> sheet \<Rightarrow> formulaAst \<Rightarrow> visitedSet \<Rightarrow> cellAddress \<Rightarrow> bool"
  for h :: host and sh :: sheet where
  underEvaluation:
    "address \<in> visited \<Longrightarrow> reaches h sh (CellRef address absCol absRow) visited address"
| formulaOfCell:
    "address \<notin> visited \<Longrightarrow> map_of (cells sh) address = Some (FormulaCell src ast) \<Longrightarrow>
     reaches h sh ast (insert address visited) b \<Longrightarrow>
     reaches h sh (CellRef address absCol absRow) visited b"
| cellOfRange:
    "parseCellAddress start = Inr s \<Longrightarrow> parseCellAddress end = Inr e \<Longrightarrow>
     rangeAddresses s e = map Inr before @ Inr address # rest \<Longrightarrow>
     (\<forall>a\<in>set before. \<exists>v. yields h sh (CellRef a False False) visited v) \<Longrightarrow>
     reaches h sh (CellRef address False False) visited b \<Longrightarrow>
     reaches h sh (RangeRef start end) visited b"
| operand:
    "reaches h sh operand visited b \<Longrightarrow> reaches h sh (UnaryOp op operand) visited b"
| leftOperand:
    "reaches h sh left visited b \<Longrightarrow> reaches h sh (BinaryOp op left right) visited b"
| rightOperand:
    "yields h sh left visited v \<Longrightarrow> reaches h sh right visited b \<Longrightarrow>
     reaches h sh (BinaryOp op left right) visited b"
| argument:
    "isArgumentList name \<Longrightarrow>
     (\<forall>x\<in>set before. \<exists>v. yields h sh x visited v) \<Longrightarrow>
     reaches h sh arg visited b \<Longrightarrow>
     reaches h sh (FunctionCall name (before @ arg # rest)) visited b"
| condition:
    "toUpperCase name = ''IF'' \<Longrightarrow> length rest \<le> 1 \<Longrightarrow>
     reaches h sh cond visited b \<Longrightarrow>
     reaches h sh (FunctionCall name (cond # thenBranch # rest)) visited b"
| branchTaken:
    "toUpperCase name = ''IF'' \<Longrightarrow> length rest \<le> 1 \<Longrightarrow>
     yields h sh cond visited v \<Longrightarrow> isTruthy v \<Longrightarrow>
     reaches h sh thenBranch visited b \<Longrightarrow>
     reaches h sh (FunctionCall name (cond # thenBranch # rest)) visited b"
| otherBranchTaken:
    "toUpperCase name = ''IF'' \<Longrightarrow>
     yields h sh cond visited v \<Longrightarrow> \<not> isTruthy v \<Longrightarrow>
     reaches h sh elseBranch visited b \<Longrightarrow>
     reaches h sh (FunctionCall name [cond, thenBranch, elseBranch]) visited b"

text \<open>The bijective base-26 numeral of a positive integer and the value of such a
  numeral: what the two loops of the codec compute while no sum or product is rounded.\<close>

function lettersOf :: "int \<Rightarrow> string \<Rightarrow> string" where
  "lettersOf n acc =
     (if n > 0 then lettersOf ((n - 1) div 26) (char_of (65 + ((n - 1) mod 26)) # acc) else acc)"
  by pat_completeness auto
termination
  by (relation "measure (\<lambda>(n, acc). nat n)") auto

declare lettersOf.simps [simp del]

fun lettersValue :: "string \<Rightarrow> int \<Rightarrow> int" where
  "lettersValue [] v = v"
| "lettersValue (c # cs) v = lettersValue cs (v * 26 + (charCode c - 65 + 1))"

text \<open>The four aggregating functions, by the name that \<open>evaluateFunction\<close> tests (AVG is an alias of AVERAGE).\<close>

definition isAggregate :: "string \<Rightarrow> bool" where
  "isAggregate name = (toUpperCase name \<in> {''SUM'', ''AVERAGE'', ''AVG'', ''MIN'', ''MAX''})"

text \<open>After \<open>removeDependencies\<close>, the only cell that dependency extraction for
  \<open>a\<close> can record as a dependent of \<open>a\<close> is \<open>a\<close> itself, and then \<open>a\<close> is among
  its own dependencies.\<close>

definition selfOnly :: "dependencyGraph \<Rightarrow> cellAddress \<Rightarrow> bool" where
  "selfOnly g a = (getDependents g a = [] \<or> (getDependents g a = [a] \<and> a \<in> set (getDependencies g a)))"

text \<open>A parser whose current token is the cell reference \<open>v\<close>, at the end of its
  input.\<close>

definition atCellRef :: "string \<Rightarrow> parser" where
  "atCellRef v = \<lparr> parserLexer = \<lparr> lexInput = v, lexPos = length v \<rparr>,
                   current = \<lparr> tokType = CELL_REF, tokValue = v, tokPos = 0 \<rparr> \<rparr>"

chapter \<open>Properties\<close>

section \<open>Address codec\<close>

lemma charCode_char_of: "0 \<le> k \<Longrightarrow> k < 256 \<Longrightarrow> charCode (char_of (k::int)) = k"
  by (simp add: charCode_def)

lemma lettersOf_pos:
  "0 < n \<Longrightarrow> lettersOf n acc = lettersOf ((n - 1) div 26) (char_of (65 + ((n - 1) mod 26)) # acc)"
  by (subst lettersOf.simps) simp

lemma lettersOf_nonpos: "n \<le> 0 \<Longrightarrow> lettersOf n acc = acc"
  by (subst lettersOf.simps) simp

lemma lettersOf_acc: "lettersOf n acc = lettersOf n [] @ acc"
proof (induction "nat n" arbitrary: n acc rule: less_induct)
  case less
  show ?case
  proof (cases "0 < n")
    case True
    let ?m = "(n - 1) div 26" and ?c = "char_of (65 + ((n - 1) mod 26)) :: char"
    have m: "nat ?m < nat n" using True by simp
    have "lettersOf n acc = lettersOf ?m [] @ (?c # acc)"
      using less[OF m, of "?c # acc"] True by (simp add: lettersOf_pos)
    moreover have "lettersOf n [] = lettersOf ?m [] @ [?c]"
      using less[OF m, of "[?c]"] True by (simp add: lettersOf_pos)
    ultimately show ?thesis by simp
  next
    case False
    then show ?thesis by (simp add: lettersOf_nonpos)
  qed
qed

lemma lettersValue_append:
  "lettersValue (xs @ ys) c = lettersValue ys (lettersValue xs c)"
  by (induction xs arbitrary: c) auto

lemma lettersValue_lettersOf:
  "0 \<le> n \<Longrightarrow> lettersValue (lettersOf n []) 0 = n"
proof (induction "nat n" arbitrary: n rule: less_induct)
  case less
  show ?case
  proof (cases "0 < n")
    case True
    let ?m = "(n - 1) div 26" and ?k = "(n - 1) mod 26"
    have m: "nat ?m < nat n" "0 \<le> ?m" using True by simp_all
    have k: "0 \<le> ?k" "?k < 26" by simp_all
    have "lettersOf n [] = lettersOf ?m [] @ [char_of (65 + ?k)]"
      using True lettersOf_acc[of ?m "[char_of (65 + ?k)]"]
      by (simp add: lettersOf_pos)
    then have "lettersValue (lettersOf n []) 0 = ?m * 26 + (charCode (char_of (65 + ?k)) - 65 + 1)"
      using less(1)[OF m] by (simp add: lettersValue_append)
    also have "charCode (char_of (65 + ?k)) = 65 + ?k"
      using k by (intro charCode_char_of) auto
    finally show ?thesis by simp
  next
    case False
    with less(2) have "n = 0" by simp
    then show ?thesis by (simp add: lettersOf_nonpos)
  qed
qed

lemma lettersOf_upper: "list_all isUpper (lettersOf n [])"
proof (induction "nat n" arbitrary: n rule: less_induct)
  case less
  show ?case
  proof (cases "0 < n")
    case True
    let ?m = "(n - 1) div 26" and ?k = "(n - 1) mod 26"
    have m: "nat ?m < nat n" using True by simp
    have k: "0 \<le> ?k" "?k < 26" by simp_all
    have eq: "lettersOf n [] = lettersOf ?m [] @ [char_of (65 + ?k)]"
      using True lettersOf_acc[of ?m "[char_of (65 + ?k)]"]
      by (simp add: lettersOf_pos)
    have "charCode (char_of (65 + ?k)) = 65 + ?k"
      using k by (intro charCode_char_of) auto
    then have "isUpper (char_of (65 + ?k))" using k by (simp add: isUpper_def)
    then show ?thesis using less(1)[OF m] eq by simp
  next
    case False
    then show ?thesis by (simp add: lettersOf_nonpos)
  qed
qed

lemma lettersOf_nonempty: "0 < n \<Longrightarrow> lettersOf n [] \<noteq> []"
  using lettersOf_acc[of "(n - 1) div 26" "[char_of (65 + ((n - 1) mod 26))]"]
  by (simp add: lettersOf_pos)

lemma lettersOf_lettersValue:
  "list_all isUpper s \<Longrightarrow> lettersOf (lettersValue s 0) [] = s \<and> 0 \<le> lettersValue s 0"
proof (induction s rule: rev_induct)
  case Nil
  then show ?case by (simp add: lettersOf_nonpos)
next
  case (snoc c s)
  let ?m = "lettersValue s 0" and ?k = "charCode c - 65"
  from snoc have ih: "lettersOf ?m [] = s" "0 \<le> ?m" and k: "0 \<le> ?k" "?k < 26"
    by (simp_all add: isUpper_def)
  have v: "lettersValue (s @ [c]) 0 = ?m * 26 + (?k + 1)"
    by (simp add: lettersValue_append)
  have pos: "0 < ?m * 26 + (?k + 1)" using ih(2) k by simp
  have e: "?m * 26 + (?k + 1) - 1 = ?k + ?m * 26" by simp
  have d: "(?m * 26 + (?k + 1) - 1) div 26 = ?m" unfolding e using k by simp
  have md: "(?m * 26 + (?k + 1) - 1) mod 26 = ?k" unfolding e using k by simp
  have c: "char_of (65 + ?k) = c"
    by (simp add: charCode_def)
  have "lettersOf (?m * 26 + (?k + 1)) [] = lettersOf ?m [c]"
    using pos d md c by (simp add: lettersOf_pos)
  also have "\<dots> = s @ [c]" using lettersOf_acc[of ?m "[c]"] ih by simp
  finally show ?case using v pos by simp
qed

text \<open>Up to \<open>2^53\<close> the loops of the codec compute in exact integers.\<close>

lemma colToLetter_loop_exact:
  "0 \<le> n \<Longrightarrow> n \<le> 2 ^ 53 \<Longrightarrow> colToLetter_loop n acc = lettersOf n acc"
proof (induction "nat n" arbitrary: n acc rule: less_induct)
  case less
  show ?case
  proof (cases "0 < n")
    case True
    have t: "toDouble (n - 1) = n - 1" using True less.prems by (intro toDouble_small) simp
    have f: "floorDiv (n - 1) 26 = (n - 1) div 26"
      using True less.prems by (intro floorDiv_exact) simp_all
    let ?m = "(n - 1) div 26"
    have m: "nat ?m < nat n" "0 \<le> ?m" using True by simp_all
    have "?m \<le> n - 1" using True by simp
    then have m2: "?m \<le> 2 ^ 53" using less.prems by simp
    have "colToLetter_loop n acc = colToLetter_loop ?m (char_of (65 + ((n - 1) mod 26)) # acc)"
      using True by (subst colToLetter_loop.simps) (simp add: t f Let_def)
    also have "\<dots> = lettersOf ?m (char_of (65 + ((n - 1) mod 26)) # acc)"
      using m m2 by (intro less.hyps) simp_all
    also have "\<dots> = lettersOf n acc" using True by (simp add: lettersOf_pos)
    finally show ?thesis .
  next
    case False
    then show ?thesis by (subst colToLetter_loop.simps) (simp add: lettersOf_nonpos)
  qed
qed

lemma lettersValue_mono:
  "list_all isUpper s \<Longrightarrow> 0 \<le> v \<Longrightarrow> v \<le> lettersValue s v"
proof (induction s arbitrary: v)
  case Nil
  then show ?case by simp
next
  case (Cons c s)
  let ?k = "charCode c - 65 + 1"
  from Cons.prems have k: "1 \<le> ?k" by (simp add: isUpper_def)
  have "v \<le> v * 26 + ?k" using Cons.prems(2) k by simp
  also have "\<dots> \<le> lettersValue s (v * 26 + ?k)"
    using Cons.prems k by (intro Cons.IH) simp_all
  finally show ?case by simp
qed

lemma letterToCol_loop_exact:
  "list_all isUpper s \<Longrightarrow> 0 \<le> v \<Longrightarrow> lettersValue s v \<le> 2 ^ 53 \<Longrightarrow>
   letterToCol_loop s v = lettersValue s v"
proof (induction s arbitrary: v)
  case Nil
  then show ?case by simp
next
  case (Cons c s)
  let ?k = "charCode c - 65 + 1"
  from Cons.prems have k: "1 \<le> ?k" by (simp add: isUpper_def)
  from Cons.prems have u: "list_all isUpper s" by simp
  have p: "0 \<le> v * 26 + ?k" using Cons.prems(2) k by simp
  have "v * 26 + ?k \<le> lettersValue s (v * 26 + ?k)" using u p by (rule lettersValue_mono)
  then have b: "v * 26 + ?k \<le> 2 ^ 53" using Cons.prems(3) by simp
  have b1: "v * 26 \<le> 2 ^ 53" using b k by linarith
  have t1: "toDouble (v * 26) = v * 26" using b1 Cons.prems(2) by (intro toDouble_exact) simp
  have t2: "toDouble (v * 26 + ?k) = v * 26 + ?k" using b p by (intro toDouble_exact) simp
  have "letterToCol_loop (c # s) v = letterToCol_loop s (v * 26 + ?k)"
    by (simp only: letterToCol_loop.simps t1 t2)
  also have "\<dots> = lettersValue s (v * 26 + ?k)"
    using u p Cons.prems(3) by (intro Cons.IH) simp_all
  finally show ?case by simp
qed

lemma lettersValue_bound:
  "list_all isUpper s \<Longrightarrow> 0 \<le> v \<Longrightarrow> lettersValue s v + 1 \<le> (v + 1) * 27 ^ length s"
proof (induction s arbitrary: v)
  case Nil
  then show ?case by simp
next
  case (Cons c s)
  let ?k = "charCode c - 65 + 1"
  from Cons.prems have k: "1 \<le> ?k" "?k \<le> 26" by (simp_all add: isUpper_def)
  from Cons.prems have u: "list_all isUpper s" by simp
  have p: "0 \<le> v * 26 + ?k" using Cons.prems(2) k by simp
  have "lettersValue (c # s) v + 1 \<le> (v * 26 + ?k + 1) * 27 ^ length s"
    using Cons.IH[OF u p] by simp
  also have "\<dots> \<le> ((v + 1) * 27) * 27 ^ length s"
    using k Cons.prems(2) by (intro mult_right_mono) auto
  finally show ?case by (simp add: algebra_simps)
qed

lemma letterToCol_colToLetter:
  assumes "0 \<le> c" and "c < 2 ^ 53"
  shows "letterToCol (colToLetter c) = c"
    and "colToLetter c = lettersOf (c + 1) []"
proof -
  have t: "toDouble (c + 1) = c + 1" using assms by (intro toDouble_exact) simp
  show l: "colToLetter c = lettersOf (c + 1) []"
    using assms by (simp add: colToLetter_def t colToLetter_loop_exact)
  have v: "lettersValue (lettersOf (c + 1) []) 0 = c + 1"
    using assms(1) by (intro lettersValue_lettersOf) simp
  have "letterToCol_loop (lettersOf (c + 1) []) 0 = lettersValue (lettersOf (c + 1) []) 0"
    using assms by (intro letterToCol_loop_exact) (simp_all add: lettersOf_upper v)
  then show "letterToCol (colToLetter c) = c"
    using assms by (simp add: letterToCol_def l v toDouble_small)
qed

lemma colToLetter_letterToCol:
  assumes "list_all isUpper s" and "length s \<le> 11"
  shows "colToLetter (letterToCol s) = s"
proof -
  have "(27::int) ^ length s \<le> 27 ^ 11" using assms(2) by (intro power_increasing) auto
  moreover have "lettersValue s 0 + 1 \<le> (0 + 1) * 27 ^ length s"
    using assms(1) by (intro lettersValue_bound) simp_all
  ultimately have b: "lettersValue s 0 < 2 ^ 53" by simp
  from lettersOf_lettersValue[OF assms(1)] have
    r: "lettersOf (lettersValue s 0) [] = s" "0 \<le> lettersValue s 0" by simp_all
  have e: "letterToCol_loop s 0 = lettersValue s 0"
    using assms(1) b by (intro letterToCol_loop_exact) simp_all
  show ?thesis
  proof (cases "lettersValue s 0 = 0")
    case True
    then have "s = []" using r(1) by (simp add: lettersOf_nonpos)
    then show ?thesis
      by (simp add: letterToCol_def colToLetter_def toDouble_small colToLetter_loop_exact lettersOf_nonpos)
  next
    case False
    then have p: "0 < lettersValue s 0" using r(2) by simp
    have "letterToCol s = lettersValue s 0 - 1"
      using b p by (simp add: letterToCol_def e toDouble_small)
    then show ?thesis
      using b p r(1) by (simp add: colToLetter_def toDouble_small colToLetter_loop_exact)
  qed
qed

lemma digitsOf_small: "n < 10 \<Longrightarrow> digitsOf n acc = char_of (48 + n) # acc"
  by (subst digitsOf.simps) simp

lemma digitsOf_big:
  "\<not> n < 10 \<Longrightarrow> digitsOf n acc = digitsOf (n div 10) (char_of (48 + n mod 10) # acc)"
  by (subst digitsOf.simps) simp

lemma digitsOf_acc: "digitsOf n acc = digitsOf n [] @ acc"
proof (induction "nat n" arbitrary: n acc rule: less_induct)
  case less
  show ?case
  proof (cases "n < 10")
    case True
    then show ?thesis by (simp add: digitsOf_small)
  next
    case False
    then have m: "nat (n div 10) < nat n" by simp
    show ?thesis
      using less[OF m, of "char_of (48 + n mod 10) # acc"]
            less[OF m, of "[char_of (48 + n mod 10)]"] False
      by (simp add: digitsOf_big)
  qed
qed

lemma digitsValue_append:
  "digitsValue (xs @ ys) a = digitsValue ys (digitsValue xs a)"
  by (induction xs arbitrary: a) auto

lemma charCode_digit: "0 \<le> k \<Longrightarrow> k < 10 \<Longrightarrow> charCode (char_of (48 + k)) = 48 + k"
  by (intro charCode_char_of) auto

lemma digitsOf_props:
  "0 \<le> n \<Longrightarrow> list_all isDigit (digitsOf n []) \<and> digitsValue (digitsOf n []) 0 = n
   \<and> (0 < n \<longrightarrow> (\<exists>d ds. digitsOf n [] = d # ds \<and> isDigit19 d))"
proof (induction "nat n" arbitrary: n rule: less_induct)
  case less
  show ?case
  proof (cases "n < 10")
    case True
    then show ?thesis
      using less.prems by (auto simp: digitsOf_small charCode_digit isDigit_def isDigit19_def)
  next
    case False
    then have m: "nat (n div 10) < nat n" "0 < n div 10" "0 \<le> n div 10" by simp_all
    have k: "0 \<le> n mod 10" "n mod 10 < 10" by simp_all
    have eq: "digitsOf n [] = digitsOf (n div 10) [] @ [char_of (48 + n mod 10)]"
      using False digitsOf_acc[of "n div 10" "[char_of (48 + n mod 10)]"]
      by (simp add: digitsOf_big)
    from less.hyps[OF m(1) m(3)] m(2) obtain d ds where
      ih: "list_all isDigit (digitsOf (n div 10) [])"
          "digitsValue (digitsOf (n div 10) []) 0 = n div 10"
          "digitsOf (n div 10) [] = d # ds" "isDigit19 d"
      by blast
    have "digitsValue (digitsOf n []) 0 = (n div 10) * 10 + n mod 10"
      using ih(2) k by (simp add: eq digitsValue_append charCode_digit)
    also have "\<dots> = n" by simp
    finally have v: "digitsValue (digitsOf n []) 0 = n" .
    have "isDigit (char_of (48 + n mod 10))"
      using k by (simp add: isDigit_def charCode_digit)
    then have a: "list_all isDigit (digitsOf n [])" using ih(1) by (simp add: eq)
    have "digitsOf n [] = d # (ds @ [char_of (48 + n mod 10)])"
      using ih(3) by (simp add: eq)
    then show ?thesis using a v ih(4) by blast
  qed
qed

lemma takeWhile_upper_stop:
  "list_all isUpper xs \<Longrightarrow> \<not> isUpper y \<Longrightarrow> takeWhile isUpper (xs @ y # ys) = xs"
  by (induction xs) auto

lemma dropWhile_upper_stop:
  "list_all isUpper xs \<Longrightarrow> \<not> isUpper y \<Longrightarrow> dropWhile isUpper (xs @ y # ys) = y # ys"
  by (induction xs) auto

lemma dollar_not_upper: "\<not> isUpper CHR ''$''"
  by (simp add: isUpper_def charCode_def)

lemma digit_not_upper: "isDigit d \<Longrightarrow> \<not> isUpper d"
  by (simp add: isUpper_def isDigit_def)

lemma digit19_digit: "isDigit19 d \<Longrightarrow> isDigit d"
  by (simp add: isDigit_def isDigit19_def)

lemma digit_not_dollar: "isDigit19 d \<Longrightarrow> d \<noteq> CHR ''$''"
  by (auto simp: isDigit19_def charCode_def)

lemma upper_not_dollar: "isUpper c \<Longrightarrow> c \<noteq> CHR ''$''"
  by (auto simp: isUpper_def charCode_def)

lemma matchAddress_formatted:
  assumes L: "list_all isUpper ls" "ls \<noteq> []"
    and D: "isDigit19 d" "list_all isDigit ds"
  shows "matchAddress ((if ac then ''$'' else '''') @ ls @ (if ar then ''$'' else '''') @ d # ds)
         = Some (if ac then ''$'' else '''', ls, if ar then ''$'' else '''', d # ds)"
proof -
  obtain l ls' where ls: "ls = l # ls'" using L(2) by (cases ls) auto
  have l: "l \<noteq> CHR ''$''" using L(1) ls upper_not_dollar by simp
  have nd: "\<not> isUpper d" using D(1) digit19_digit digit_not_upper by blast
  have d: "d \<noteq> CHR ''$''" using D(1) digit_not_dollar by blast
  have tw: "takeWhile isUpper (ls @ (if ar then ''$'' else '''') @ d # ds) = ls"
    using takeWhile_upper_stop[OF L(1) dollar_not_upper, of "d # ds"]
          takeWhile_upper_stop[OF L(1) nd, of ds] by simp
  have dw: "dropWhile isUpper (ls @ (if ar then ''$'' else '''') @ d # ds)
            = (if ar then ''$'' else '''') @ d # ds"
    using dropWhile_upper_stop[OF L(1) dollar_not_upper, of "d # ds"]
          dropWhile_upper_stop[OF L(1) nd, of ds] by simp
  have first: "(case (if ac then ''$'' else '''') @ ls @ (if ar then ''$'' else '''') @ d # ds of
                  c # r \<Rightarrow> if c = CHR ''$'' then (''$'', r)
                           else ('''', (if ac then ''$'' else '''') @ ls @ (if ar then ''$'' else '''') @ d # ds)
                | [] \<Rightarrow> ('''', (if ac then ''$'' else '''') @ ls @ (if ar then ''$'' else '''') @ d # ds))
               = (if ac then ''$'' else '''', ls @ (if ar then ''$'' else '''') @ d # ds)"
    using l by (simp add: ls)
  show ?thesis
    unfolding matchAddress_def first
    using L(2) D d by (simp add: tw dw)
qed

lemma formatAddress_parseAddress:
  assumes "0 \<le> c" "c < 2 ^ 53" "0 \<le> r" "r < 2 ^ 53"
  shows "\<exists>a. formatAddress c r ac ar = Inr a \<and>
             parseAddress a = Inr \<lparr> col = c, row = r, absoluteCol = ac, absoluteRow = ar \<rparr>"
proof -
  have cl: "colToLetter c = lettersOf (c + 1) []"
    using assms(1,2) by (rule letterToCol_colToLetter(2))
  have L: "list_all isUpper (colToLetter c)" "colToLetter c \<noteq> []"
    using assms(1) by (simp_all add: cl lettersOf_upper lettersOf_nonempty)
  have t: "toDouble (r + 1) = r + 1" using assms(3,4) by (intro toDouble_exact) simp
  have pos: "0 < r + 1" "0 \<le> r + 1" using assms(3) by simp_all
  from digitsOf_props[OF pos(2)] pos(1) obtain d ds where
    D: "digitsOf (r + 1) [] = d # ds" "isDigit19 d" "list_all isDigit (digitsOf (r + 1) [])"
       "digitsValue (digitsOf (r + 1) []) 0 = r + 1"
    by blast
  have ns: "numToString (toDouble (r + 1)) = d # ds"
    using assms(3,4) D(1) by (simp add: t numToString_def digitsToString_def)
  have dsd: "list_all isDigit ds" using D(1,3) by simp
  let ?a = "(if ac then ''$'' else '''') @ colToLetter c @ (if ar then ''$'' else '''') @ d # ds"
  have m: "matchAddress ?a = Some (if ac then ''$'' else '''', colToLetter c, if ar then ''$'' else '''', d # ds)"
    by (rule matchAddress_formatted[OF L D(2) dsd])
  have f: "formatAddress c r ac ar = Inr ?a"
    using m by (simp add: formatAddress_def toCellAddress_def ns)
  have "toDouble (toDouble (digitsValue (d # ds) 0) - 1) = toDouble (toDouble (r + 1) - 1)"
    using D(1,4) by simp
  also have "\<dots> = r" using assms(3,4) by (simp add: t toDouble_small)
  finally have v: "toDouble (toDouble (digitsValue (d # ds) 0) - 1) = r" .
  have p: "parseAddress ?a = Inr \<lparr> col = c, row = r, absoluteCol = ac, absoluteRow = ar \<rparr>"
    unfolding parseAddress_def m using v letterToCol_colToLetter(1)[OF assms(1,2)] by simp
  show ?thesis using f p by blast
qed

text \<open>
  Claim C5 says that the round trip holds for every pair of non-negative integers. The
  coordinates are doubles. At row \<open>2^53\<close> the sum \<open>row + 1\<close> rounds back to
  \<open>2^53\<close>: \<open>formatAddress\<close> returns \<open>A9007199254740992\<close>, and \<open>parseAddress\<close>
  reads row \<open>2^53 - 1\<close> from it. In the same way \<open>colToLetter\<close> gives column
  \<open>2^53\<close> the letters of column \<open>2^53 - 1\<close>. From \<open>10^21\<close> on the row is printed in
  exponent form, which \<open>toCellAddress\<close> refuses: \<open>formatAddress\<close> throws.
\<close>

theorem roundtrip_beyond_safe_integers:
  "formatAddress 0 9007199254740992 False False = Inr ''A9007199254740992''
   \<and> parseAddress ''A9007199254740992''
       = Inr \<lparr> col = 0, row = 9007199254740991, absoluteCol = False, absoluteRow = False \<rparr>
   \<and> letterToCol (colToLetter 9007199254740992) = 9007199254740991
   \<and> formatAddress 0 1000000000000000000000 False False
       = Inl ''Invalid cell address format: A1e+21''"
  by code_simp

text \<open>
  Claim C5, amended. For all integers \<open>c\<close>, \<open>r\<close> from 0 to \<open>2^53 - 1\<close> (the safe
  integers) and all booleans \<open>ac\<close>, \<open>ar\<close>, \<open>formatAddress\<close> returns an address (it
  does not throw) and \<open>parseAddress\<close> of that address returns exactly \<open>c\<close>, \<open>r\<close>,
  \<open>ac\<close>, \<open>ar\<close>. On the same integers \<open>letterToCol\<close> undoes \<open>colToLetter\<close>, and
  \<open>colToLetter\<close> undoes \<open>letterToCol\<close> on every string of up to 11 capital letters
  (the strings whose column is below \<open>2^53\<close> whatever their letters).
\<close>

theorem parseAddress_formatAddress_roundtrip:
  assumes "0 \<le> c" and "c < 2 ^ 53" and "0 \<le> r" and "r < 2 ^ 53"
  shows "(\<exists>a. formatAddress c r ac ar = Inr a \<and>
              parseAddress a = Inr \<lparr> col = c, row = r, absoluteCol = ac, absoluteRow = ar \<rparr>)
         \<and> letterToCol (colToLetter c) = c
         \<and> (list_all isUpper s \<and> length s \<le> 11 \<longrightarrow> colToLetter (letterToCol s) = s)"
  using assms formatAddress_parseAddress letterToCol_colToLetter(1) colToLetter_letterToCol
  by blast

theorem parseAddress_formatAddress_roundtrip_witness:
  "formatAddress 701 11 True False = Inr ''$ZZ12''
   \<and> parseAddress ''$ZZ12'' = Inr \<lparr> col = 701, row = 11, absoluteCol = True, absoluteRow = False \<rparr>
   \<and> letterToCol (colToLetter 701) = 701
   \<and> colToLetter 0 = ''A'' \<and> colToLetter 25 = ''Z'' \<and> colToLetter 26 = ''AA''
   \<and> colToLetter (letterToCol ''ZZ'') = ''ZZ''
   \<and> formatAddress 9007199254740991 9007199254740991 False False = Inr ''BKTXHSOGHKKF9007199254740992''
   \<and> parseAddress ''BKTXHSOGHKKF9007199254740992''
       = Inr \<lparr> col = 9007199254740991, row = 9007199254740991,
               absoluteCol = False, absoluteRow = False \<rparr>"
proof -
  have h: "(0::int) \<le> 701" "(701::int) < 2 ^ 53" "(0::int) \<le> 11" "(11::int) < 2 ^ 53" by simp_all
  have u: "list_all isUpper ''ZZ'' \<and> length ''ZZ'' \<le> 11" by code_simp
  have f: "formatAddress 701 11 True False = Inr ''$ZZ12''" by code_simp
  have a: "colToLetter 0 = ''A'' \<and> colToLetter 25 = ''Z'' \<and> colToLetter 26 = ''AA''" by code_simp
  have m: "(0::int) \<le> 9007199254740991" "(9007199254740991::int) < 2 ^ 53" by simp_all
  have g: "formatAddress 9007199254740991 9007199254740991 False False
           = Inr ''BKTXHSOGHKKF9007199254740992''" by code_simp
  show ?thesis
    using parseAddress_formatAddress_roundtrip [OF h, of True False "''ZZ''"]
          parseAddress_formatAddress_roundtrip [OF m m, of False False "''ZZ''"] u f a g
    by auto
qed

section \<open>Dependency graph\<close>

lemma set_setAdd: "set (setAdd x s) = insert x (set s)"
  by (auto simp: setAdd_def)

lemma set_setDelete: "set (setDelete x s) = set s - {x}"
  by (simp add: setDelete_def)

lemma getDependencies_addDependency:
  "set (getDependencies (addDependency g f t) a)
   = (if a = f then insert t (set (getDependencies g a)) else set (getDependencies g a))"
  by (auto simp: getDependencies_def addDependency_def Let_def update_conv' set_setAdd
           split: option.splits if_splits)

lemma getDependents_addDependency:
  "set (getDependents (addDependency g f t) b)
   = (if b = t then insert f (set (getDependents g b)) else set (getDependents g b))"
  by (auto simp: getDependents_def addDependency_def Let_def update_conv' set_setAdd
           split: option.splits if_splits)

lemma consistent_addDependency: "consistent g \<Longrightarrow> consistent (addDependency g f t)"
  unfolding consistent_def
  by (simp add: getDependencies_addDependency getDependents_addDependency)

lemma map_of_deleteFrom:
  "map_of (deleteFrom cell k m) x
   = (case map_of m x of
        None \<Rightarrow> None
      | Some s \<Rightarrow> Some (if x = k then setDelete cell s else s))"
  by (auto simp: deleteFrom_def update_conv' split: option.splits)

lemma setDelete_idem: "setDelete c (setDelete c s) = setDelete c s"
  by (simp add: setDelete_def)

lemma map_of_fold_deleteFrom:
  "map_of (fold (deleteFrom cell) ks m) x
   = (case map_of m x of
        None \<Rightarrow> None
      | Some s \<Rightarrow> Some (if x \<in> set ks then setDelete cell s else s))"
proof (induction ks arbitrary: m)
  case Nil
  then show ?case by (simp split: option.splits)
next
  case (Cons k ks)
  have "map_of (fold (deleteFrom cell) (k # ks) m) x
        = map_of (fold (deleteFrom cell) ks (deleteFrom cell k m)) x"
    by simp
  also have "\<dots> = (case map_of (deleteFrom cell k m) x of
        None \<Rightarrow> None
      | Some s \<Rightarrow> Some (if x \<in> set ks then setDelete cell s else s))"
    by (rule Cons.IH)
  also have "\<dots> = (case map_of m x of
        None \<Rightarrow> None
      | Some s \<Rightarrow> Some (if x \<in> set (k # ks) then setDelete cell s else s))"
    by (auto simp: map_of_deleteFrom setDelete_idem split: option.splits)
  finally show ?case .
qed

lemma entrySet_fold_deleteFrom:
  "entrySet (fold (deleteFrom cell) ks m) x
   = (if x \<in> set ks then entrySet m x - {cell} else entrySet m x)"
  by (simp add: entrySet_def map_of_fold_deleteFrom set_setDelete split: option.splits)

lemma entrySet_delete: "entrySet (AList.delete k m) x = (if x = k then {} else entrySet m x)"
  by (simp add: entrySet_def delete_conv')

lemma getDependencies_entrySet: "set (getDependencies g a) = entrySet (dependencies g) a"
  by (simp add: getDependencies_def entrySet_def split: option.splits)

lemma getDependents_entrySet: "set (getDependents g a) = entrySet (dependents g) a"
  by (simp add: getDependents_def entrySet_def split: option.splits)

lemma entrySet_None: "map_of m k = None \<Longrightarrow> entrySet m k = {}"
  by (simp add: entrySet_def)

lemma entrySet_Some: "map_of m k = Some s \<Longrightarrow> entrySet m k = set s"
  by (simp add: entrySet_def)

lemma removeDependencies_sets:
  assumes "consistent g"
  shows "set (getDependencies (removeDependencies g cell) a)
           = (if a = cell then {} else set (getDependencies g a) - {cell})"
    and "set (getDependents (removeDependencies g cell) b)
           = (if b = cell then {} else set (getDependents g b) - {cell})"
proof -
  have inv: "\<And>a b. b \<in> entrySet (dependencies g) a \<longleftrightarrow> a \<in> entrySet (dependents g) b"
    using assms by (simp add: consistent_def getDependencies_entrySet getDependents_entrySet)
  define g1 where "g1 = (case map_of (dependencies g) cell of
                  None \<Rightarrow> g
                | Some deps \<Rightarrow>
                    \<lparr> dependencies = AList.delete cell (dependencies g),
                      dependents = fold (deleteFrom cell) deps (dependents g) \<rparr>)"
  have d1: "entrySet (dependencies g1) a = (if a = cell then {} else entrySet (dependencies g) a)" for a
    by (auto simp: g1_def entrySet_delete entrySet_None split: option.splits)
  have p1: "entrySet (dependents g1) b = entrySet (dependents g) b - {cell}" for b
  proof (cases "map_of (dependencies g) cell")
    case None
    then have "cell \<notin> entrySet (dependents g) b" using inv[of b cell] by (simp add: entrySet_None)
    then show ?thesis using None by (simp add: g1_def)
  next
    case (Some deps)
    then have "b \<in> set deps \<longleftrightarrow> cell \<in> entrySet (dependents g) b"
      using inv[of b cell] by (simp add: entrySet_Some)
    then show ?thesis using Some by (auto simp: g1_def entrySet_fold_deleteFrom)
  qed
  have r: "removeDependencies g cell =
        (case map_of (dependents g1) cell of
           None \<Rightarrow> g1
         | Some dependents' \<Rightarrow>
             \<lparr> dependencies = fold (deleteFrom cell) dependents' (dependencies g1),
               dependents = AList.delete cell (dependents g1) \<rparr>)"
    unfolding removeDependencies_def Let_def g1_def by (rule refl)
  have d2: "entrySet (dependencies (removeDependencies g cell)) a
            = (if a = cell then {} else entrySet (dependencies g) a - {cell})"
  proof (cases "map_of (dependents g1) cell")
    case None
    then have "entrySet (dependents g) cell - {cell} = {}" using p1[of cell] by (simp add: entrySet_None)
    then have "cell \<notin> entrySet (dependencies g) a \<or> a = cell" using inv[of cell a] by auto
    then show ?thesis using None by (auto simp: r d1)
  next
    case (Some ds)
    then have "set ds = entrySet (dependents g) cell - {cell}" using p1[of cell] by (simp add: entrySet_Some)
    then have "a \<in> set ds \<longleftrightarrow> cell \<in> entrySet (dependencies g) a \<and> a \<noteq> cell" using inv[of cell a] by auto
    then show ?thesis using Some by (auto simp: r d1 entrySet_fold_deleteFrom)
  qed
  have p2: "entrySet (dependents (removeDependencies g cell)) b
            = (if b = cell then {} else entrySet (dependents g) b - {cell})"
  proof (cases "map_of (dependents g1) cell")
    case None
    have e: "removeDependencies g cell = g1" using None by (simp add: r)
    show ?thesis
    proof (cases "b = cell")
      case True
      then show ?thesis using None by (simp add: e entrySet_None)
    next
      case False
      then show ?thesis by (simp add: e p1)
    qed
  next
    case (Some ds)
    have e: "dependents (removeDependencies g cell) = AList.delete cell (dependents g1)"
      using Some by (simp add: r)
    show ?thesis by (simp add: e entrySet_delete p1)
  qed
  show "set (getDependencies (removeDependencies g cell) a)
           = (if a = cell then {} else set (getDependencies g a) - {cell})"
    using d2 by (simp add: getDependencies_entrySet)
  show "set (getDependents (removeDependencies g cell) b)
           = (if b = cell then {} else set (getDependents g b) - {cell})"
    using p2 by (simp add: getDependents_entrySet)
qed

lemma consistent_removeDependencies: "consistent g \<Longrightarrow> consistent (removeDependencies g cell)"
  unfolding consistent_def[of "removeDependencies g cell"]
  by (auto simp: removeDependencies_sets consistent_def)

lemma consistent_new: "consistent newDependencyGraph"
  by (simp add: consistent_def newDependencyGraph_def getDependencies_def getDependents_def)

lemma consistent_applyOp: "consistent g \<Longrightarrow> consistent (applyOp g op)"
  by (cases op) (simp_all add: consistent_addDependency consistent_removeDependencies)

lemma consistent_foldl: "consistent g \<Longrightarrow> consistent (foldl applyOp g ops)"
  by (induction ops arbitrary: g) (simp_all add: consistent_applyOp)

text \<open>
  Claim C6. After any sequence of \<open>addDependency\<close> and \<open>removeDependencies\<close> calls
  on a new graph, \<open>b\<close> is in \<open>dependencies[a]\<close> exactly when \<open>a\<close> is in
  \<open>dependents[b]\<close> (an absent key holds nothing).
\<close>

theorem dependency_maps_inverse:
  "b \<in> set (getDependencies (foldl applyOp newDependencyGraph ops) a)
   \<longleftrightarrow> a \<in> set (getDependents (foldl applyOp newDependencyGraph ops) b)"
  using consistent_foldl[OF consistent_new, of ops] by (simp add: consistent_def)

theorem dependency_maps_inverse_witness:
  "''A2'' \<in> set (getDependencies (foldl applyOp newDependencyGraph
       [AddDependency ''A3'' ''A2'', AddDependency ''A2'' ''A1'', RemoveDependencies ''A1'']) ''A3'')
   \<and> ''A3'' \<in> set (getDependents (foldl applyOp newDependencyGraph
       [AddDependency ''A3'' ''A2'', AddDependency ''A2'' ''A1'', RemoveDependencies ''A1'']) ''A2'')"
proof -
  have "''A2'' \<in> set (getDependencies (foldl applyOp newDependencyGraph
       [AddDependency ''A3'' ''A2'', AddDependency ''A2'' ''A1'', RemoveDependencies ''A1'']) ''A3'')"
    by code_simp
  then show ?thesis
    using dependency_maps_inverse [of "''A2''"
        "[AddDependency ''A3'' ''A2'', AddDependency ''A2'' ''A1'', RemoveDependencies ''A1'']" "''A3''"]
    by simp
qed

lemma leaves_visited:
  assumes "(v, t) \<in> (depEdges deps)\<^sup>*" and "v \<in> visited" and "t \<notin> visited"
    and "\<forall>v\<in>visited. \<forall>w. (v, w) \<in> depEdges deps \<longrightarrow> w \<in> visited \<or> w \<in> set stack"
  shows "\<exists>s\<in>set stack. (s, t) \<in> (depEdges deps)\<^sup>*"
  using assms
proof (induction rule: converse_rtrancl_induct)
  case base
  then show ?case by simp
next
  case (step v w)
  then show ?case by blast
qed

lemma hasCycle_loop_reach:
  assumes "t \<notin> visited"
    and "\<forall>v\<in>visited. \<forall>w. (v, w) \<in> depEdges deps \<longrightarrow> w \<in> visited \<or> w \<in> set stack"
  shows "hasCycle_loop deps t stack visited \<longleftrightarrow> (\<exists>s\<in>set stack. (s, t) \<in> (depEdges deps)\<^sup>*)"
  using assms
proof (induction deps t stack visited rule: hasCycle_loop.induct)
  case (1 deps t visited)
  then show ?case by simp
next
  case (2 deps t current stack visited)
  let ?E = "depEdges deps"
  show ?case
  proof (cases "current = t")
    case True
    then show ?thesis by auto
  next
    case neq: False
    show ?thesis
    proof (cases "current \<in> visited")
      case True
      have inv: "\<forall>v\<in>visited. \<forall>w. (v, w) \<in> ?E \<longrightarrow> w \<in> visited \<or> w \<in> set stack"
        using "2.prems"(2) True by auto
      have ih: "hasCycle_loop deps t stack visited \<longleftrightarrow> (\<exists>s\<in>set stack. (s, t) \<in> ?E\<^sup>*)"
        using "2.IH"(1)[OF neq True "2.prems"(1) inv] .
      have "(current, t) \<in> ?E\<^sup>* \<Longrightarrow> \<exists>s\<in>set stack. (s, t) \<in> ?E\<^sup>*"
        using leaves_visited[OF _ True "2.prems"(1) inv] by blast
      then show ?thesis using ih neq True by auto
    next
      case False
      let ?succs = "case map_of deps current of None \<Rightarrow> [] | Some ds \<Rightarrow> ds"
      let ?visited' = "insert current visited"
      let ?stack' = "rev (filter (\<lambda>dep. dep \<notin> ?visited') ?succs) @ stack"
      have succs: "set ?succs = {w. (current, w) \<in> ?E}"
        by (auto simp: depEdges_def entrySet_def split: option.splits)
      have i1: "t \<notin> ?visited'" using "2.prems"(1) neq by auto
      have i2: "\<forall>v\<in>?visited'. \<forall>w. (v, w) \<in> ?E \<longrightarrow> w \<in> ?visited' \<or> w \<in> set ?stack'"
      proof (intro ballI allI impI)
        fix v w assume v: "v \<in> ?visited'" and e: "(v, w) \<in> ?E"
        show "w \<in> ?visited' \<or> w \<in> set ?stack'"
        proof (cases "v = current")
          case True
          then have "w \<in> set ?succs" using e succs by simp
          then show ?thesis by auto
        next
          case False
          then have "v \<in> visited" using v by simp
          then have "w \<in> visited \<or> w \<in> set (current # stack)" using "2.prems"(2) e by blast
          then show ?thesis by auto
        qed
      qed
      have ih: "hasCycle_loop deps t ?stack' ?visited' \<longleftrightarrow> (\<exists>s\<in>set ?stack'. (s, t) \<in> ?E\<^sup>*)"
        using "2.IH"(2)[OF neq False i1 i2] .
      have step: "hasCycle_loop deps t (current # stack) visited = hasCycle_loop deps t ?stack' ?visited'"
        using neq False by simp
      have "(\<exists>s\<in>set ?stack'. (s, t) \<in> ?E\<^sup>*) \<longleftrightarrow> (\<exists>s\<in>set (current # stack). (s, t) \<in> ?E\<^sup>*)"
      proof
        assume "\<exists>s\<in>set ?stack'. (s, t) \<in> ?E\<^sup>*"
        then obtain s where s: "s \<in> set ?stack'" "(s, t) \<in> ?E\<^sup>*" by blast
        show "\<exists>s\<in>set (current # stack). (s, t) \<in> ?E\<^sup>*"
        proof (cases "s \<in> set stack")
          case True
          then show ?thesis using s(2) by auto
        next
          case False
          then have "s \<in> set ?succs" using s(1) by auto
          then have "(current, s) \<in> ?E" using succs by simp
          then have "(current, t) \<in> ?E\<^sup>*" using s(2) by (rule converse_rtrancl_into_rtrancl)
          then show ?thesis by auto
        qed
      next
        assume "\<exists>s\<in>set (current # stack). (s, t) \<in> ?E\<^sup>*"
        then obtain s where s: "s \<in> set (current # stack)" "(s, t) \<in> ?E\<^sup>*" by blast
        show "\<exists>s\<in>set ?stack'. (s, t) \<in> ?E\<^sup>*"
        proof (cases "s = current")
          case True
          have "current \<in> ?visited'" by simp
          from leaves_visited[OF _ this i1 i2] s(2) True show ?thesis by blast
        next
          case False
          then have "s \<in> set ?stack'" using s(1) by auto
          then show ?thesis using s(2) by blast
        qed
      qed
      then show ?thesis using ih step by simp
    qed
  qed
qed

text \<open>
  Claim C7. For every graph and every pair of addresses, \<open>hasCycle(from, to)\<close> is true
  exactly when \<open>from\<close> can be reached from \<open>to\<close> along dependency edges (in zero or
  more steps), and the graph after the call is the graph before it.
\<close>

theorem hasCycle_reachable:
  "hasCycle g from to
   = ((to, from) \<in> {(a, b). b \<in> set (getDependencies g a)}\<^sup>*, g)"
proof -
  have e: "{(a, b). b \<in> set (getDependencies g a)} = depEdges (dependencies g)"
    by (simp add: depEdges_def getDependencies_entrySet)
  have "hasCycle_loop (dependencies g) from [to] {}
        \<longleftrightarrow> (\<exists>s\<in>set [to]. (s, from) \<in> (depEdges (dependencies g))\<^sup>*)"
    by (rule hasCycle_loop_reach) simp_all
  then show ?thesis by (simp add: hasCycle_def e)
qed

theorem hasCycle_reachable_witness:
  "hasCycle (addDependency newDependencyGraph ''A1'' ''B1'') ''B1'' ''A1''
     = (True, addDependency newDependencyGraph ''A1'' ''B1'')
   \<and> (''A1'', ''B1'') \<in> {(a, b). b \<in> set (getDependencies
          (addDependency newDependencyGraph ''A1'' ''B1'') a)}\<^sup>*"
proof -
  have "hasCycle (addDependency newDependencyGraph ''A1'' ''B1'') ''B1'' ''A1''
     = (True, addDependency newDependencyGraph ''A1'' ''B1'')"
    by code_simp
  then show ?thesis
    using hasCycle_reachable [of "addDependency newDependencyGraph ''A1'' ''B1''" "''B1''" "''A1''"]
    by simp
qed

text \<open>
  Claim C3 says that \<open>getEvaluationOrder\<close> puts every cell after the cells it depends
  on, so that the chain is ordered A1, A2, A3. The code counts, for each cell, the cells
  of the set that depend on it, and seeds the queue with the cells that nothing depends
  on: on the chain it returns A3, A2, A1, every cell before the cell it depends on.
\<close>

theorem getEvaluationOrder_chain:
  "getEvaluationOrder chainGraph [''A1'', ''A2'', ''A3''] = [''A3'', ''A2'', ''A1'']
   \<and> getDependencies chainGraph ''A3'' = [''A2'']
   \<and> getDependencies chainGraph ''A2'' = [''A1'']
   \<and> getDependencies chainGraph ''A1'' = []"
  by code_simp

section \<open>Evaluator\<close>

subsection \<open>The visited set is restored\<close>

lemma keeps_Some [simp]: "keeps v (Some (r, v')) \<longleftrightarrow> v' = v"
  by (simp add: keeps_def)

lemma keeps_None [simp]: "keeps v None"
  by (simp add: keeps_def)

lemma keeps_andThen:
  assumes "keeps v m" and "\<And>x. keeps v (k x v)"
  shows "keeps v (andThen m k)"
proof (cases m)
  case None
  then show ?thesis by (simp add: andThen_def)
next
  case (Some p)
  obtain r v' where p: "p = (r, v')" by (cases p)
  have v': "v' = v" using assms(1) Some p by simp
  show ?thesis
  proof (cases r)
    case (Inl e)
    then show ?thesis using Some p v' by (simp add: andThen_def)
  next
    case (Inr x)
    then show ?thesis using Some p v' assms(2)[of x] by (simp add: andThen_def)
  qed
qed

lemma keeps_forEach:
  assumes "\<And>x acc v. keeps v (body x acc v)"
  shows "keeps v (forEach body xs acc v)"
proof (induction xs arbitrary: acc)
  case Nil
  then show ?case by simp
next
  case (Cons x xs)
  have b: "keeps v (body x acc v)" by (rule assms)
  show ?case
  proof (cases "body x acc v")
    case None
    then show ?thesis by simp
  next
    case (Some p)
    obtain r v' where p: "p = (r, v')" by (cases p)
    have v': "v' = v" using b Some p by simp
    show ?thesis
    proof (cases r)
      case (Inl e)
      then show ?thesis using Some p v' by simp
    next
      case (Inr acc')
      then show ?thesis using Some p v' Cons.IH[of acc'] by simp
    qed
  qed
qed

lemma keeps_evaluateCellRef:
  assumes "restores ev"
  shows "keeps v (evaluateCellRef ev sh address v)"
proof (cases "address \<in> v")
  case True
  then show ?thesis by (simp add: evaluateCellRef_def)
next
  case False
  have k: "\<And>ast r v'. ev ast (insert address v) = Some (r, v') \<Longrightarrow> v' = insert address v"
    using assms by (simp add: restores_def keeps_def)
  have d: "insert address v - {address} = v" using False by auto
  show ?thesis
  proof (cases "map_of (cells sh) address")
    case None
    then show ?thesis using False by (simp add: evaluateCellRef_def)
  next
    case (Some c)
    show ?thesis
    proof (cases c)
      case (FormulaCell src ast)
      show ?thesis
      proof (cases "ev ast (insert address v)")
        case None
        then show ?thesis using False Some FormulaCell by (simp add: evaluateCellRef_def)
      next
        case (Some p)
        obtain r v' where p: "p = (r, v')" by (cases p)
        have "v' = insert address v" using k Some p by simp
        then show ?thesis
          using False \<open>map_of (cells sh) address = Some c\<close> FormulaCell Some p d
          by (simp add: evaluateCellRef_def)
      qed
    qed (use False Some in \<open>simp_all add: evaluateCellRef_def\<close>)
  qed
qed

lemma keeps_evaluateRange:
  assumes "restores ev"
  shows "keeps v (evaluateRange ev sh start end v)"
  unfolding evaluateRange_def
  by (auto split: sum.splits intro!: keeps_forEach keeps_andThen keeps_evaluateCellRef[OF assms])

lemma keeps_getNumericValues:
  assumes "restores ev"
  shows "keeps v (getNumericValues h ev ast v)"
  unfolding getNumericValues_def
  using assms by (auto simp: restores_def intro!: keeps_andThen)

lemma keeps_getAllValues:
  assumes "restores ev"
  shows "keeps v (getAllValues ev ast v)"
  unfolding getAllValues_def
  using assms by (auto simp: restores_def intro!: keeps_andThen)

lemma keeps_evaluateSum:
  assumes "restores ev"
  shows "keeps v (evaluateSum h ev args v)"
  unfolding evaluateSum_def
  by (auto intro!: keeps_andThen keeps_forEach keeps_getNumericValues[OF assms])

lemma keeps_evaluateAverage:
  assumes "restores ev"
  shows "keeps v (evaluateAverage h ev args v)"
  unfolding evaluateAverage_def
  by (auto intro!: keeps_andThen keeps_forEach keeps_getNumericValues[OF assms] split: prod.splits)

lemma keeps_evaluateMin:
  assumes "restores ev"
  shows "keeps v (evaluateMin h ev args v)"
  unfolding evaluateMin_def
  by (auto intro!: keeps_andThen keeps_forEach keeps_getNumericValues[OF assms])

lemma keeps_evaluateMax:
  assumes "restores ev"
  shows "keeps v (evaluateMax h ev args v)"
  unfolding evaluateMax_def
  by (auto intro!: keeps_andThen keeps_forEach keeps_getNumericValues[OF assms])

lemma keeps_evaluateCount:
  assumes "restores ev"
  shows "keeps v (evaluateCount ev args v)"
  unfolding evaluateCount_def
  by (auto intro!: keeps_andThen keeps_forEach keeps_getAllValues[OF assms])

lemma keeps_evaluateIf:
  assumes "restores ev"
  shows "keeps v (evaluateIf ev args v)"
  unfolding evaluateIf_def
  using assms by (auto simp: restores_def intro!: keeps_andThen)

lemma keeps_evaluateFunction:
  assumes "restores ev"
  shows "keeps v (evaluateFunction h ev name args v)"
  unfolding evaluateFunction_def Let_def
  by (simp add: keeps_evaluateSum keeps_evaluateAverage keeps_evaluateMin keeps_evaluateMax
        keeps_evaluateCount keeps_evaluateIf assms)

lemma keeps_evaluateBinaryOp:
  assumes "restores ev"
  shows "keeps v (evaluateBinaryOp h ev op left right v)"
  unfolding evaluateBinaryOp_def Let_def
  using assms by (auto simp: restores_def intro!: keeps_andThen)

lemma keeps_evaluateNode:
  assumes "restores ev"
  shows "keeps v (evaluateNode h sh ev ast v)"
proof (cases ast)
  case (CellRef a c r)
  then show ?thesis by (simp add: evaluateNode_def keeps_evaluateCellRef[OF assms])
next
  case (RangeRef s e)
  then show ?thesis
    by (auto simp: evaluateNode_def intro!: keeps_andThen keeps_evaluateRange[OF assms])
next
  case (FunctionCall n args)
  then show ?thesis by (simp add: evaluateNode_def keeps_evaluateFunction[OF assms])
next
  case (BinaryOp op l r)
  then show ?thesis by (simp add: evaluateNode_def keeps_evaluateBinaryOp[OF assms])
next
  case (UnaryOp op x)
  then show ?thesis
    using assms by (auto simp: evaluateNode_def restores_def intro!: keeps_andThen)
qed (simp_all add: evaluateNode_def)

lemma restores_evaluateAst: "restores (evaluateAst h sh fuel)"
proof (induction fuel)
  case 0
  then show ?case by (simp add: restores_def)
next
  case (Suc fuel)
  then show ?case by (simp add: restores_def keeps_evaluateNode)
qed


subsection \<open>Enough fuel: every evaluation returns\<close>

text \<open>Enough fuel: every evaluation returns.\<close>

lemma andThen_defined:
  assumes "m \<noteq> None" and "keeps v m" and "\<And>x. k x v \<noteq> None"
  shows "andThen m k \<noteq> None"
proof -
  from assms(1) obtain r v' where m: "m = Some (r, v')" by (cases m) auto
  then have "v' = v" using assms(2) by (simp add: keeps_def)
  then show ?thesis using m assms(3) by (cases r) (simp_all add: andThen_def)
qed

lemma forEach_defined:
  assumes "\<And>x acc. x \<in> set xs \<Longrightarrow> body x acc v \<noteq> None"
    and "\<And>x acc. keeps v (body x acc v)"
  shows "forEach body xs acc v \<noteq> None"
  using assms(1)
proof (induction xs arbitrary: acc)
  case Nil
  then show ?case by simp
next
  case (Cons x xs)
  from Cons.prems[of x acc] obtain r v' where b: "body x acc v = Some (r, v')"
    by (cases "body x acc v") auto
  then have v': "v' = v" using assms(2)[of x acc] by (simp add: keeps_def)
  show ?case
  proof (cases r)
    case (Inl e)
    then show ?thesis using b by simp
  next
    case (Inr acc')
    have "forEach body xs acc' v \<noteq> None" by (rule Cons.IH) (simp add: Cons.prems)
    then show ?thesis using b Inr v' by simp
  qed
qed

lemma getNumericValues_defined:
  assumes "restores ev" and "ev ast v \<noteq> None"
  shows "getNumericValues h ev ast v \<noteq> None"
  unfolding getNumericValues_def
  using assms by (intro andThen_defined[where v=v]) (simp_all add: restores_def)

lemma getAllValues_defined:
  assumes "restores ev" and "ev ast v \<noteq> None"
  shows "getAllValues ev ast v \<noteq> None"
  unfolding getAllValues_def
  using assms by (intro andThen_defined[where v=v]) (simp_all add: restores_def)

lemma evaluateFunction_defined:
  assumes r: "restores ev" and d: "\<And>arg. arg \<in> set args \<Longrightarrow> ev arg v \<noteq> None"
  shows "evaluateFunction h ev name args v \<noteq> None"
proof -
  have s: "evaluateSum h ev args v \<noteq> None"
    unfolding evaluateSum_def
    by (intro andThen_defined[where v=v] forEach_defined[where v=v] keeps_forEach keeps_andThen
          getNumericValues_defined[OF r] keeps_getNumericValues[OF r] d) simp_all
  have a: "evaluateAverage h ev args v \<noteq> None"
    unfolding evaluateAverage_def case_prod_beta
    by (intro andThen_defined[where v=v] forEach_defined[where v=v] keeps_forEach keeps_andThen
          getNumericValues_defined[OF r] keeps_getNumericValues[OF r] d) simp_all
  have mi: "evaluateMin h ev args v \<noteq> None"
    unfolding evaluateMin_def
    by (intro andThen_defined[where v=v] forEach_defined[where v=v] keeps_forEach keeps_andThen
          getNumericValues_defined[OF r] keeps_getNumericValues[OF r] d) simp_all
  have ma: "evaluateMax h ev args v \<noteq> None"
    unfolding evaluateMax_def
    by (intro andThen_defined[where v=v] forEach_defined[where v=v] keeps_forEach keeps_andThen
          getNumericValues_defined[OF r] keeps_getNumericValues[OF r] d) simp_all
  have c: "evaluateCount ev args v \<noteq> None"
    unfolding evaluateCount_def
    by (intro andThen_defined[where v=v] forEach_defined[where v=v] keeps_forEach keeps_andThen
          getAllValues_defined[OF r] keeps_getAllValues[OF r] d) simp_all
  have i: "evaluateIf ev args v \<noteq> None"
  proof (cases "length args < 2 \<or> length args > 3")
    case True
    then show ?thesis by (simp add: evaluateIf_def)
  next
    case False
    then have "2 \<le> length args" by simp
    then have l: "0 < length args" "1 < length args" by linarith+
    have m: "args ! 0 \<in> set args" "args ! 1 \<in> set args" "length args = 3 \<Longrightarrow> args ! 2 \<in> set args"
      using nth_mem[OF l(1)] nth_mem[OF l(2)] nth_mem[of 2 args] by simp_all
    have k: "keeps v (ev (args ! 0) v)" using r by (simp add: restores_def)
    have "andThen (ev (args ! 0) v)
             (\<lambda>condition visited.
                if isTruthy condition then ev (args ! 1) visited
                else if length args = 3 then ev (args ! 2) visited
                else Some (Inr (VBool False), visited)) \<noteq> None"
    proof (rule andThen_defined[where v=v])
      show "ev (args ! 0) v \<noteq> None" by (rule d[OF m(1)])
      show "keeps v (ev (args ! 0) v)" by (rule k)
      fix x
      show "(if isTruthy x then ev (args ! 1) v
             else if length args = 3 then ev (args ! 2) v
             else Some (Inr (VBool False), v)) \<noteq> None"
        using d[OF m(2)] d[OF m(3)] by (simp del: not_None_eq)
    qed
    then show ?thesis
      using False by (simp add: evaluateIf_def del: not_None_eq)
  qed
  show ?thesis
    unfolding evaluateFunction_def Let_def using s a mi ma c i by simp
qed

lemma evaluateBinaryOp_defined:
  assumes r: "restores ev" and "ev left v \<noteq> None" and "ev right v \<noteq> None"
  shows "evaluateBinaryOp h ev op left right v \<noteq> None"
proof -
  have kl: "keeps v (ev left v)" and kr: "keeps v (ev right v)"
    using r by (simp_all add: restores_def)
  show ?thesis
    unfolding evaluateBinaryOp_def Let_def
    by (intro andThen_defined[where v=v] assms(2,3) kl kr) simp
qed

lemma rangeBody_defined:
  assumes "\<And>addr. evaluateCellRef ev sh addr v \<noteq> None" and "restores ev"
  shows "(case formatCellAddress c r of
            Inl e \<Rightarrow> Some (Inl e, v)
          | Inr cellAddr \<Rightarrow>
              andThen (evaluateCellRef ev sh cellAddr v)
                (\<lambda>cellValue visited. Some (Inr (values @ [cellValue]), visited))) \<noteq> None"
proof (cases "formatCellAddress c r")
  case (Inl e)
  then show ?thesis by simp
next
  case (Inr cellAddr)
  have "andThen (evaluateCellRef ev sh cellAddr v)
          (\<lambda>cellValue visited. Some (Inr (values @ [cellValue]), visited)) \<noteq> None"
    by (intro andThen_defined[where v=v] assms(1) keeps_evaluateCellRef[OF assms(2)]) simp
  then show ?thesis using Inr by simp
qed

lemma rangeBody_keeps:
  assumes "restores ev"
  shows "keeps v (case formatCellAddress c r of
            Inl e \<Rightarrow> Some (Inl e, v)
          | Inr cellAddr \<Rightarrow>
              andThen (evaluateCellRef ev sh cellAddr v)
                (\<lambda>cellValue visited. Some (Inr (values @ [cellValue]), visited)))"
  by (auto split: sum.splits intro!: keeps_andThen keeps_evaluateCellRef[OF assms])

lemma evaluateRange_defined:
  assumes r: "restores ev" and d: "\<And>addr. evaluateCellRef ev sh addr v \<noteq> None"
  shows "evaluateRange ev sh start end v \<noteq> None"
proof (cases "parseCellAddress start")
  case (Inl e)
  then show ?thesis by (simp add: evaluateRange_def)
next
  case sp: (Inr startParsed)
  show ?thesis
  proof (cases "parseCellAddress end")
    case (Inl e)
    then show ?thesis using sp by (simp add: evaluateRange_def)
  next
    case ep: (Inr endParsed)
    have "forEach (\<lambda>r. forEach (\<lambda>c values visited.
                      case formatCellAddress c r of
                        Inl e \<Rightarrow> Some (Inl e, visited)
                      | Inr cellAddr \<Rightarrow>
                          andThen (evaluateCellRef ev sh cellAddr visited)
                            (\<lambda>cellValue visited. Some (Inr (values @ [cellValue]), visited)))
                    [pcol startParsed .. pcol endParsed])
            [prow startParsed .. prow endParsed] [] v \<noteq> None"
      by (intro forEach_defined[where v=v] keeps_forEach rangeBody_defined[OF d r] rangeBody_keeps[OF r])
    then show ?thesis using sp ep by (simp add: evaluateRange_def del: not_None_eq)
  qed
qed

lemma finite_formulaCells: "finite (formulaCells sh)"
proof -
  have "formulaCells sh \<subseteq> fst ` set (cells sh)"
    by (auto simp: formulaCells_def dest!: map_of_SomeD intro: rev_image_eqI)
  then show ?thesis by (rule finite_subset) simp
qed

lemma common_fuel:
  assumes "finite S" and "\<forall>x\<in>S. \<exists>n. \<forall>m\<ge>n. P m x"
  shows "\<exists>n::nat. \<forall>m\<ge>n. \<forall>x\<in>S. P m x"
  using assms
proof (induction S)
  case empty
  then show ?case by simp
next
  case (insert x S)
  then obtain n1 where n1: "\<forall>m\<ge>n1. \<forall>y\<in>S. P m y" by auto
  from insert.prems obtain n2 where n2: "\<forall>m\<ge>n2. P m x" by auto
  have "\<forall>m\<ge>max n1 n2. \<forall>y\<in>insert x S. P m y" using n1 n2 by auto
  then show ?case by blast
qed

lemma cellRefs_defined:
  assumes ih: "\<And>v' ast. card (formulaCells sh - v') < card (formulaCells sh - v) \<Longrightarrow>
                 \<exists>n. \<forall>m\<ge>n. evaluateAst h sh m ast v' \<noteq> None"
  shows "\<exists>n. \<forall>m\<ge>n. \<forall>addr. evaluateCellRef (evaluateAst h sh m) sh addr v \<noteq> None"
proof -
  let ?S = "formulaCells sh - v"
  have fin: "finite ?S" using finite_formulaCells by simp
  have "\<forall>a\<in>?S. \<exists>n. \<forall>m\<ge>n. \<forall>src ast. map_of (cells sh) a = Some (FormulaCell src ast) \<longrightarrow>
          evaluateAst h sh m ast (insert a v) \<noteq> None"
  proof
    fix a assume a: "a \<in> ?S"
    then obtain src ast where c: "map_of (cells sh) a = Some (FormulaCell src ast)"
      by (auto simp: formulaCells_def)
    have "formulaCells sh - insert a v \<subset> ?S" using a by auto
    then have "card (formulaCells sh - insert a v) < card ?S"
      using fin by (rule psubset_card_mono[rotated])
    from ih[OF this, of ast] obtain n where "\<forall>m\<ge>n. evaluateAst h sh m ast (insert a v) \<noteq> None"
      by blast
    then show "\<exists>n. \<forall>m\<ge>n. \<forall>src ast. map_of (cells sh) a = Some (FormulaCell src ast) \<longrightarrow>
          evaluateAst h sh m ast (insert a v) \<noteq> None"
      using c by auto
  qed
  from common_fuel[OF fin this] obtain n where
    n: "\<And>m a src ast. n \<le> m \<Longrightarrow> a \<in> ?S \<Longrightarrow> map_of (cells sh) a = Some (FormulaCell src ast) \<Longrightarrow>
          evaluateAst h sh m ast (insert a v) \<noteq> None"
    by blast
  have "evaluateCellRef (evaluateAst h sh m) sh addr v \<noteq> None" if m: "n \<le> m" for m addr
  proof (cases "addr \<in> v")
    case True
    then show ?thesis by (simp add: evaluateCellRef_def)
  next
    case False
    show ?thesis
    proof (cases "map_of (cells sh) addr")
      case None
      then show ?thesis using False by (simp add: evaluateCellRef_def)
    next
      case (Some c)
      show ?thesis
      proof (cases c)
        case (FormulaCell src ast)
        have "addr \<in> ?S" using False Some FormulaCell by (auto simp: formulaCells_def)
        from n[OF m this] Some FormulaCell
        have "evaluateAst h sh m ast (insert addr v) \<noteq> None" by simp
        then show ?thesis using False Some FormulaCell
          by (auto simp: evaluateCellRef_def)
      qed (use False Some in \<open>simp_all add: evaluateCellRef_def\<close>)
    qed
  qed
  then show ?thesis by blast
qed

lemma evaluateAst_Suc: "evaluateAst h sh (Suc k) ast v = evaluateNode h sh (evaluateAst h sh k) ast v"
  by simp

lemma ast_defined:
  assumes c: "\<forall>m\<ge>nc. \<forall>addr. evaluateCellRef (evaluateAst h sh m) sh addr v \<noteq> None"
  shows "\<exists>n. \<forall>m\<ge>n. evaluateAst h sh m ast v \<noteq> None"
proof (induction ast)
  case (NumberLiteral x)
  have "evaluateAst h sh m (NumberLiteral x) v \<noteq> None" if "1 \<le> m" for m
    using that by (cases m) (simp_all add: evaluateNode_def)
  then show ?case by blast
next
  case (StringLiteral x)
  have "evaluateAst h sh m (StringLiteral x) v \<noteq> None" if "1 \<le> m" for m
    using that by (cases m) (simp_all add: evaluateNode_def)
  then show ?case by blast
next
  case (BooleanLiteral x)
  have "evaluateAst h sh m (BooleanLiteral x) v \<noteq> None" if "1 \<le> m" for m
    using that by (cases m) (simp_all add: evaluateNode_def)
  then show ?case by blast
next
  case (CellRef a x y)
  have "evaluateAst h sh m (CellRef a x y) v \<noteq> None" if "Suc nc \<le> m" for m
  proof -
    from that obtain k where k: "m = Suc k" "nc \<le> k" by (cases m) auto
    show ?thesis using c k by (simp add: evaluateNode_def del: not_None_eq)
  qed
  then show ?case by blast
next
  case (RangeRef s e)
  have "evaluateAst h sh m (RangeRef s e) v \<noteq> None" if "Suc nc \<le> m" for m
  proof -
    from that obtain k where k: "m = Suc k" "nc \<le> k" by (cases m) auto
    have r: "restores (evaluateAst h sh k)" by (rule restores_evaluateAst)
    have d: "\<And>addr. evaluateCellRef (evaluateAst h sh k) sh addr v \<noteq> None" using c k by simp
    have "andThen (evaluateRange (evaluateAst h sh k) sh s e v)
            (\<lambda>values visited. Some (Inr (VArr values), visited)) \<noteq> None"
      by (intro andThen_defined[where v=v] evaluateRange_defined[OF r d] keeps_evaluateRange[OF r]) simp
    then show ?thesis by (simp add: k evaluateNode_def del: not_None_eq)
  qed
  then show ?case by blast
next
  case (FunctionCall name args)
  have "\<forall>arg\<in>set args. \<exists>n. \<forall>m\<ge>n. evaluateAst h sh m arg v \<noteq> None"
    using FunctionCall by blast
  from common_fuel[OF _ this] obtain n where
    n': "\<forall>m\<ge>n. \<forall>arg\<in>set args. evaluateAst h sh m arg v \<noteq> None"
    by blast
  have n: "\<And>m arg. n \<le> m \<Longrightarrow> arg \<in> set args \<Longrightarrow> evaluateAst h sh m arg v \<noteq> None"
    using n' by blast
  have "evaluateAst h sh m (FunctionCall name args) v \<noteq> None" if "Suc n \<le> m" for m
  proof -
    from that obtain k where k: "m = Suc k" "n \<le> k" by (cases m) auto
    have "evaluateFunction h (evaluateAst h sh k) name args v \<noteq> None"
      by (rule evaluateFunction_defined[OF restores_evaluateAst]) (rule n[OF k(2)])
    then show ?thesis by (simp add: k evaluateNode_def del: not_None_eq)
  qed
  then show ?case by blast
next
  case (BinaryOp op l r)
  then obtain n1 n2 where n: "\<forall>m\<ge>n1. evaluateAst h sh m l v \<noteq> None"
      "\<forall>m\<ge>n2. evaluateAst h sh m r v \<noteq> None" by blast
  have "evaluateAst h sh m (BinaryOp op l r) v \<noteq> None" if "Suc (max n1 n2) \<le> m" for m
  proof -
    from that obtain k where k: "m = Suc k" "n1 \<le> k" "n2 \<le> k" by (cases m) auto
    have "evaluateBinaryOp h (evaluateAst h sh k) op l r v \<noteq> None"
      using n k by (intro evaluateBinaryOp_defined[OF restores_evaluateAst]) simp_all
    then show ?thesis by (simp add: k evaluateNode_def del: not_None_eq)
  qed
  then show ?case by blast
next
  case (UnaryOp op x)
  then obtain n where n: "\<forall>m\<ge>n. evaluateAst h sh m x v \<noteq> None" by blast
  have "evaluateAst h sh m (UnaryOp op x) v \<noteq> None" if "Suc n \<le> m" for m
  proof -
    from that obtain k where k: "m = Suc k" "n \<le> k" by (cases m) auto
    have r: "keeps v (evaluateAst h sh k x v)"
      using restores_evaluateAst[of h sh k] by (simp add: restores_def)
    have "andThen (evaluateAst h sh k x v) (\<lambda>operand visited.
            if op = ''-'' then Some (Inr (VNum (case operand of VNum n \<Rightarrow> jsNeg n | _ \<Rightarrow> Fin 0)), visited)
            else if op = ''+'' then Some (Inr (VNum (case operand of VNum n \<Rightarrow> n | _ \<Rightarrow> Fin 0)), visited)
            else Some (Inl (''Unknown unary operator: '' @ op), visited)) \<noteq> None"
      using n k by (intro andThen_defined[where v=v] r) simp_all
    then show ?thesis by (simp add: k evaluateNode_def del: not_None_eq)
  qed
  then show ?case by blast
qed

lemma evaluateAst_defined: "\<exists>n. \<forall>m\<ge>n. evaluateAst h sh m ast v \<noteq> None"
proof (induction "card (formulaCells sh - v)" arbitrary: v ast rule: less_induct)
  case less
  from cellRefs_defined[of sh v h] less obtain nc where
    "\<forall>m\<ge>nc. \<forall>addr. evaluateCellRef (evaluateAst h sh m) sh addr v \<noteq> None"
    by blast
  then show ?case by (rule ast_defined)
qed

lemma evaluateCell_defined: "\<exists>n. \<forall>m\<ge>n. evaluateCell h m sh a \<noteq> None"
proof (cases "map_of (cells sh) a")
  case None
  then show ?thesis by (simp add: evaluateCell_def)
next
  case (Some c)
  show ?thesis
  proof (cases c)
    case (FormulaCell src ast)
    from evaluateAst_defined[of h sh ast "{a}"] obtain n where
      n: "\<forall>m\<ge>n. evaluateAst h sh m ast {a} \<noteq> None" by blast
    have "evaluateCell h m sh a \<noteq> None" if "n \<le> m" for m
      using n that Some FormulaCell
      by (auto simp: evaluateCell_def split: sum.splits)
    then show ?thesis by blast
  qed (use Some in \<open>simp_all add: evaluateCell_def\<close>)
qed

subsection \<open>More fuel never changes a result\<close>

lemma agrees_refl [simp]: "agrees m m"
  by (simp add: agrees_def)

lemma agrees_andThen:
  assumes "agrees m m'" and "\<And>x v. agrees (k x v) (k' x v)"
  shows "agrees (andThen m k) (andThen m' k')"
  using assms
  by (auto simp: agrees_def andThen_def split: option.splits sum.splits prod.splits)

lemma agrees_forEach:
  assumes "\<And>x acc v. agrees (body x acc v) (body' x acc v)"
  shows "agrees (forEach body xs acc v) (forEach body' xs acc v)"
proof (induction xs arbitrary: acc v)
  case Nil
  then show ?case by simp
next
  case (Cons x xs)
  show ?case
  proof (cases "body x acc v")
    case None
    then show ?thesis by (simp add: agrees_def)
  next
    case (Some p)
    then have b': "body' x acc v = Some p" using assms[of x acc v] by (simp add: agrees_def)
    obtain r v' where p: "p = (r, v')" by (cases p)
    show ?thesis
      using Some b' p Cons.IH by (cases r) simp_all
  qed
qed

lemma agrees_evaluateCellRef:
  assumes "extends ev ev'"
  shows "agrees (evaluateCellRef ev sh a v) (evaluateCellRef ev' sh a v)"
proof -
  have e: "\<And>ast v r. ev ast v = Some r \<Longrightarrow> ev' ast v = Some r"
    using assms unfolding extends_def agrees_def by blast
  show ?thesis
    by (auto simp: agrees_def evaluateCellRef_def dest: e split: option.splits cell.splits prod.splits if_splits)
qed

lemma agrees_evaluateRange:
  assumes "extends ev ev'"
  shows "agrees (evaluateRange ev sh s e v) (evaluateRange ev' sh s e v)"
  unfolding evaluateRange_def
  by (auto split: sum.splits intro!: agrees_forEach agrees_andThen agrees_evaluateCellRef[OF assms])

lemma agrees_ev: "extends ev ev' \<Longrightarrow> agrees (ev ast v) (ev' ast v)"
  by (simp add: extends_def)

lemma agrees_getNumericValues:
  assumes "extends ev ev'"
  shows "agrees (getNumericValues h ev ast v) (getNumericValues h ev' ast v)"
  unfolding getNumericValues_def
  by (intro agrees_andThen agrees_ev[OF assms]) simp

lemma agrees_getAllValues:
  assumes "extends ev ev'"
  shows "agrees (getAllValues ev ast v) (getAllValues ev' ast v)"
  unfolding getAllValues_def
  by (intro agrees_andThen agrees_ev[OF assms]) simp

lemma agrees_evaluateFunction:
  assumes e: "extends ev ev'"
  shows "agrees (evaluateFunction h ev name args v) (evaluateFunction h ev' name args v)"
proof -
  have s: "agrees (evaluateSum h ev args v) (evaluateSum h ev' args v)"
    unfolding evaluateSum_def
    by (intro agrees_andThen agrees_forEach agrees_getNumericValues[OF e]) simp_all
  have a: "agrees (evaluateAverage h ev args v) (evaluateAverage h ev' args v)"
    unfolding evaluateAverage_def case_prod_beta
    by (intro agrees_andThen agrees_forEach agrees_getNumericValues[OF e]) simp_all
  have mi: "agrees (evaluateMin h ev args v) (evaluateMin h ev' args v)"
    unfolding evaluateMin_def
    by (intro agrees_andThen agrees_forEach agrees_getNumericValues[OF e]) simp_all
  have ma: "agrees (evaluateMax h ev args v) (evaluateMax h ev' args v)"
    unfolding evaluateMax_def
    by (intro agrees_andThen agrees_forEach agrees_getNumericValues[OF e]) simp_all
  have c: "agrees (evaluateCount ev args v) (evaluateCount ev' args v)"
    unfolding evaluateCount_def
    by (intro agrees_andThen agrees_forEach agrees_getAllValues[OF e]) simp_all
  have i: "agrees (evaluateIf ev args v) (evaluateIf ev' args v)"
    unfolding evaluateIf_def
    by (auto intro!: agrees_andThen agrees_ev[OF e])
  show ?thesis
    unfolding evaluateFunction_def Let_def using s a mi ma c i by simp
qed

lemma agrees_evaluateBinaryOp:
  assumes e: "extends ev ev'"
  shows "agrees (evaluateBinaryOp h ev op l r v) (evaluateBinaryOp h ev' op l r v)"
  unfolding evaluateBinaryOp_def Let_def
  by (intro agrees_andThen agrees_ev[OF e]) simp

lemma agrees_evaluateNode:
  assumes e: "extends ev ev'"
  shows "agrees (evaluateNode h sh ev ast v) (evaluateNode h sh ev' ast v)"
proof (cases ast)
  case (CellRef a c r)
  then show ?thesis by (simp add: evaluateNode_def agrees_evaluateCellRef[OF e])
next
  case (RangeRef s t)
  then show ?thesis
    by (auto simp: evaluateNode_def intro!: agrees_andThen agrees_evaluateRange[OF e])
next
  case (FunctionCall n args)
  then show ?thesis by (simp add: evaluateNode_def agrees_evaluateFunction[OF e])
next
  case (BinaryOp op l r)
  then show ?thesis by (simp add: evaluateNode_def agrees_evaluateBinaryOp[OF e])
next
  case (UnaryOp op x)
  then show ?thesis
    by (auto simp: evaluateNode_def intro!: agrees_andThen agrees_ev[OF e])
qed (simp_all add: evaluateNode_def)

lemma extends_evaluateAst_Suc: "extends (evaluateAst h sh n) (evaluateAst h sh (Suc n))"
proof (induction n)
  case 0
  then show ?case by (simp add: extends_def agrees_def)
next
  case (Suc n)
  then show ?case
    using agrees_evaluateNode[OF Suc, of h sh] by (simp add: extends_def)
qed

lemma evaluateAst_more_fuel:
  assumes "evaluateAst h sh n ast v = Some r" and "n \<le> m"
  shows "evaluateAst h sh m ast v = Some r"
  using assms(2,1)
proof (induction m rule: dec_induct)
  case base
  then show ?case .
next
  case (step k)
  then show ?case using extends_evaluateAst_Suc[of h sh k]
    unfolding extends_def agrees_def by blast
qed

lemma evaluateCell_more_fuel:
  assumes "evaluateCell h n sh a = Some r" and "n \<le> m"
  shows "evaluateCell h m sh a = Some r"
proof (cases "map_of (cells sh) a")
  case None
  then show ?thesis using assms by (simp add: evaluateCell_def)
next
  case (Some c)
  show ?thesis
  proof (cases c)
    case (FormulaCell src ast)
    from assms(1) Some FormulaCell obtain x where
      x: "evaluateAst h sh n ast {a} = Some x"
      by (auto simp: evaluateCell_def split: option.splits)
    then have "evaluateAst h sh m ast {a} = Some x" using assms(2) by (rule evaluateAst_more_fuel)
    then show ?thesis using assms(1) Some FormulaCell x by (simp add: evaluateCell_def)
  qed (use Some assms in \<open>simp_all add: evaluateCell_def\<close>)
qed

text \<open>Every cell has one result, the one that every large enough fuel gives.\<close>

lemma evaluateCell_result: "\<exists>r n. \<forall>m\<ge>n. evaluateCell h m sh a = Some r"
proof -
  from evaluateCell_defined[of h sh a] obtain n where "evaluateCell h n sh a \<noteq> None" by blast
  then obtain r where "evaluateCell h n sh a = Some r" by auto
  then have "\<forall>m\<ge>n. evaluateCell h m sh a = Some r" using evaluateCell_more_fuel by blast
  then show ?thesis by blast
qed

subsection \<open>Reference cycles, aggregates and updates\<close>


























text \<open>Functions with numeric aggregation and an empty list of numeric values.\<close>

lemma forEach_const:
  assumes "\<And>x. x \<in> set xs \<Longrightarrow> body x acc v = Some (Inr acc, v)"
  shows "forEach body xs acc v = Some (Inr acc, v)"
  using assms by (induction xs) auto

lemma aggregates_empty:
  assumes "\<And>arg. arg \<in> set args \<Longrightarrow> getNumericValues h ev arg v = Some (Inr [], v)"
  shows "evaluateSum h ev args v = Some (Inr (VNum (Fin 0)), v)"
    and "evaluateAverage h ev args v = Some (Inr (VNum (Fin 0)), v)"
    and "evaluateMin h ev args v = Some (Inr (VNum (Fin 0)), v)"
    and "evaluateMax h ev args v = Some (Inr (VNum (Fin 0)), v)"
proof -
  show "evaluateSum h ev args v = Some (Inr (VNum (Fin 0)), v)"
    unfolding evaluateSum_def
    by (subst forEach_const) (simp_all add: assms andThen_def)
  show "evaluateAverage h ev args v = Some (Inr (VNum (Fin 0)), v)"
    unfolding evaluateAverage_def
    by (subst forEach_const) (simp_all add: assms andThen_def)
  show "evaluateMin h ev args v = Some (Inr (VNum (Fin 0)), v)"
    unfolding evaluateMin_def
    by (subst forEach_const) (simp_all add: assms andThen_def)
  show "evaluateMax h ev args v = Some (Inr (VNum (Fin 0)), v)"
    unfolding evaluateMax_def
    by (subst forEach_const) (simp_all add: assms andThen_def)
qed

lemma aggregate_empty_zero:
  assumes "isAggregate name"
    and "\<forall>arg\<in>set args. \<exists>visited'. getNumericValues h (evaluateAst h sh fuel) arg visited = Some (Inr [], visited')"
  shows "evaluateAst h sh (Suc fuel) (FunctionCall name args) visited = Some (Inr (VNum (Fin 0)), visited)"
proof -
  have k: "\<And>arg. arg \<in> set args \<Longrightarrow>
        getNumericValues h (evaluateAst h sh fuel) arg visited = Some (Inr [], visited)"
  proof -
    fix arg assume "arg \<in> set args"
    with assms(2) obtain v' where
      g: "getNumericValues h (evaluateAst h sh fuel) arg visited = Some (Inr [], v')" by blast
    have "keeps visited (getNumericValues h (evaluateAst h sh fuel) arg visited)"
      by (rule keeps_getNumericValues[OF restores_evaluateAst])
    then have "v' = visited" using g by (simp add: keeps_def)
    then show "getNumericValues h (evaluateAst h sh fuel) arg visited = Some (Inr [], visited)"
      using g by simp
  qed
  note z = aggregates_empty[of args h "evaluateAst h sh fuel" visited, OF k]
  show ?thesis
    using assms(1) z
    by (auto simp: evaluateNode_def evaluateFunction_def isAggregate_def Let_def)
qed

lemma map_of_fold_deleteFrom_None:
  "map_of m x = None \<Longrightarrow> map_of (fold (deleteFrom cell) ks m) x = None"
  by (simp add: map_of_fold_deleteFrom)

lemma removeDependencies_no_key:
  "map_of (dependents (removeDependencies g a)) a = None"
  by (auto simp: removeDependencies_def Let_def delete_conv' split: option.splits)

lemma getDependents_addDependency_list:
  "getDependents (addDependency g f t) b
   = (if b = t then setAdd f (getDependents g b) else getDependents g b)"
  by (auto simp: getDependents_def addDependency_def Let_def update_conv' split: option.splits)

lemma selfOnly_addDependency: "selfOnly g a \<Longrightarrow> selfOnly (addDependency g a x) a"
  by (auto simp: selfOnly_def getDependents_addDependency_list getDependencies_addDependency setAdd_def)

lemma selfOnly_fold:
  assumes "\<And>x g. selfOnly g a \<Longrightarrow> selfOnly (f x g) a" and "selfOnly g a"
  shows "selfOnly (fold f xs g) a"
  using assms(2) by (induction xs arbitrary: g) (simp_all add: assms(1))

lemma selfOnly_rangeDependencies: "selfOnly g a \<Longrightarrow> selfOnly (rangeDependencies g s e a) a"
  unfolding rangeDependencies_def
  by (auto split: option.splits intro!: selfOnly_fold selfOnly_addDependency)

lemma selfOnly_extractDependencies: "selfOnly g a \<Longrightarrow> selfOnly (extractDependencies g ast a) a"
proof (induction g ast a rule: extractDependencies.induct)
  case (5 g name args fromCell)
  have "\<And>xs g. set xs \<subseteq> set args \<Longrightarrow> selfOnly g fromCell \<Longrightarrow>
          selfOnly (fold (\<lambda>arg g. extractDependencies g arg fromCell) xs g) fromCell"
  proof -
    fix xs g
    show "set xs \<subseteq> set args \<Longrightarrow> selfOnly g fromCell \<Longrightarrow>
          selfOnly (fold (\<lambda>arg g. extractDependencies g arg fromCell) xs g) fromCell"
      by (induction xs arbitrary: g) (auto intro: "5.IH")
  qed
  then show ?case using "5.prems" by simp
qed (simp_all add: selfOnly_addDependency selfOnly_rangeDependencies)

lemma fold_incrementIn_single:
  "fold incrementIn ds [(a, d)] = [(a, d + int (count_list ds a))]"
  by (induction ds arbitrary: d) (auto simp: incrementIn_def)

lemma getEvaluationOrder_self:
  assumes "a \<in> set (getDependencies g a)"
  shows "getEvaluationOrder g [a] = []"
proof -
  from assms obtain ds where ds: "map_of (dependencies g) a = Some ds" "a \<in> set ds"
    by (cases "map_of (dependencies g) a") (auto simp: getDependencies_def)
  have "count_list ds a \<noteq> 0" using ds(2) by (simp add: count_list_0_iff)
  then have "count_list ds a > 0" by simp
  then show ?thesis
    using ds(1) by (simp add: getEvaluationOrder_def countDeps_def fold_incrementIn_single)
qed

lemma updateCell_reevaluates_nothing:
  "\<exists>out. updateCell h fuel now g sh a c = Some out \<and> reevaluated out = []"
proof -
  define g1 where "g1 = removeDependencies g a"
  define g2 where "g2 = (case c of FormulaCell src ast \<Rightarrow> extractDependencies g1 ast a | _ \<Rightarrow> g1)"
  have "selfOnly g1 a"
    by (simp add: selfOnly_def getDependents_def g1_def removeDependencies_no_key)
  then have s: "selfOnly g2 a"
    by (auto simp: g2_def selfOnly_extractDependencies split: cell.splits)
  show ?thesis
  proof (cases "getDependents g2 a = []")
    case True
    then show ?thesis by (simp add: updateCell_def Let_def flip: g1_def g2_def)
  next
    case False
    with s have d: "getDependents g2 a = [a]" "a \<in> set (getDependencies g2 a)"
      by (auto simp: selfOnly_def)
    then show ?thesis
      by (simp add: updateCell_def Let_def getEvaluationOrder_self flip: g1_def g2_def)
  qed
qed

lemma evaluateCell_formula_code:
  assumes "map_of (cells sh) a = Some (FormulaCell src ast)"
    and "evaluateCell h fuel sh a = Some r"
  shows "error r = None \<or> (\<exists>m. error r = Some (CYCLE, m)) \<or> (\<exists>m. error r = Some (PARSE, m))"
  using assms
  by (auto simp: evaluateCell_def split: option.splits sum.splits prod.splits if_splits)

text \<open>
  Claim C1 says that \<open>=1/0\<close> and \<open>=IF(1/0,"x","y")\<close> evaluate to an error with code
  DIV0. The parser gives the two formulas the trees of \<open>divSheet\<close>, and
  \<open>evaluateCell\<close> reports both with code PARSE and the message of the thrown error:
  the \<open>catch\<close> of \<open>evaluateCell\<close> knows the circular-reference prefix only, and no
  path of the evaluator produces DIV0 (\<open>evaluateCell_formula_code\<close>).
\<close>

theorem division_by_zero_code:
  "parseFormula 4 ''=1/0''
     = Some (Inr (BinaryOp ''/'' (NumberLiteral (Fin 1)) (NumberLiteral (Fin 0))))
   \<and> evaluateCell h 3 divSheet ''A1''
     = Some \<lparr> resultValue = VNull, error = Some (PARSE, ''Division by zero'') \<rparr>
   \<and> evaluateCell h 3 divSheet ''B1''
     = Some \<lparr> resultValue = VNull, error = Some (PARSE, ''Division by zero'') \<rparr>"
  by code_simp

text \<open>
  Claim C2 says that \<open>updateCell\<close> re-evaluates exactly the transitive dependents of
  the edited cell, and A3 in the example. \<open>updateCell\<close> asks the graph for the
  dependents of the address after \<open>removeDependencies\<close> has deleted them (it removes
  the cell as a target as well as a source), so the list to recalculate holds at most the
  address itself when the new formula names it, and then the evaluation order of that
  list is empty: no edit re-evaluates any cell (\<open>updateCell_reevaluates_nothing\<close>).
  In the example the graph built by \<open>evaluateSheet\<close> is \<open>sumGraph\<close>; the edit of
  A1 re-evaluates nothing and leaves a graph in which A3 no longer depends on A1. A later
  call of \<open>evaluateCell\<close> on the new sheet gives 12 for A3.
\<close>

theorem updateCell_sum_example:
  "evaluateSheet h 3 sumSheet
     = Some (sumGraph, [(''A3'', \<lparr> resultValue = VNum (Fin 3), error = None \<rparr>)])
   \<and> updateCell h 3 now sumGraph sumSheet ''A1'' (LiteralCell (VNum (Fin 10)))
     = Some \<lparr> newSheet = sumSheet\<lparr> cells := AList.update ''A1'' (LiteralCell (VNum (Fin 10))) (cells sumSheet),
                                     updatedAt := now \<rparr>,
               newGraph = \<lparr> dependencies = [(''A3'', [''A2''])], dependents = [(''A2'', [''A3''])] \<rparr>,
               reevaluated = [] \<rparr>
   \<and> evaluateCell h 3 (sumSheet\<lparr> cells := AList.update ''A1'' (LiteralCell (VNum (Fin 10))) (cells sumSheet),
                                  updatedAt := now \<rparr>) ''A3''
     = Some \<lparr> resultValue = VNum (Fin 12), error = None \<rparr>"
  by code_simp




text \<open>
  Claim C8. When every argument of a SUM, AVERAGE (or AVG), MIN or MAX call evaluates
  and contributes no numeric value, the call returns the number 0: not \<open>NaN\<close>, not an
  infinity, not a thrown error. In particular \<open>=SUM(A1:A2)\<close> over an empty range is 0.
\<close>

theorem aggregate_of_no_numbers_is_zero:
  assumes "isAggregate name"
    and "\<forall>arg\<in>set args. \<exists>visited'.
           getNumericValues h (evaluateAst h sh fuel) arg visited = Some (Inr [], visited')"
  shows "evaluateAst h sh (Suc fuel) (FunctionCall name args) visited
         = Some (Inr (VNum (Fin 0)), visited)"
  using assms by (rule aggregate_empty_zero)

theorem aggregate_of_no_numbers_is_zero_witness:
  "evaluateAst exampleHost emptyRangeSheet (Suc 2) (FunctionCall ''SUM'' [RangeRef ''A1'' ''A2'']) {''A3''}
     = Some (Inr (VNum (Fin 0)), {''A3''})
   \<and> getNumericValues exampleHost (evaluateAst exampleHost emptyRangeSheet 2)
        (RangeRef ''A1'' ''A2'') {''A3''} = Some (Inr [], {''A3''})
   \<and> evaluateCell exampleHost 3 emptyRangeSheet ''A3''
     = Some \<lparr> resultValue = VNum (Fin 0), error = None \<rparr>
   \<and> evaluateAst exampleHost emptyRangeSheet (Suc 2) (FunctionCall ''min'' [RangeRef ''A1'' ''A2'']) {''A3''}
     = Some (Inr (VNum (Fin 0)), {''A3''})"
proof -
  have n: "isAggregate ''SUM''" "isAggregate ''min''" by code_simp+
  have g: "getNumericValues exampleHost (evaluateAst exampleHost emptyRangeSheet 2)
        (RangeRef ''A1'' ''A2'') {''A3''} = Some (Inr [], {''A3''})"
    by code_simp
  then have a: "\<forall>arg\<in>set [RangeRef ''A1'' ''A2'']. \<exists>visited'.
      getNumericValues exampleHost (evaluateAst exampleHost emptyRangeSheet 2) arg {''A3''}
        = Some (Inr [], visited')"
    by simp
  have c: "evaluateCell exampleHost 3 emptyRangeSheet ''A3''
     = Some \<lparr> resultValue = VNum (Fin 0), error = None \<rparr>"
    by code_simp
  show ?thesis
    using aggregate_of_no_numbers_is_zero [OF n(1) a] aggregate_of_no_numbers_is_zero [OF n(2) a] g c
    by simp
qed

text \<open>
  Claim C9 says that a range covers the rectangle between its corners whichever way the
  corners are written. \<open>evaluateRange\<close> loops from the start's row and column up to
  the end's, without the \<open>Math.min\<close> and \<open>Math.max\<close> of its sibling
  \<open>getCellsInRange\<close>: with the corners reversed neither loop runs, the range is the
  empty array, and \<open>=SUM(B2:A1)\<close> is 0 where \<open>=SUM(A1:B2)\<close> is 10.
\<close>

theorem reversed_range_is_empty:
  "evaluateAst h squareSheet 1 (RangeRef ''B2'' ''A1'') {''C1''} = Some (Inr (VArr []), {''C1''})
   \<and> evaluateAst h squareSheet 1 (RangeRef ''A1'' ''B2'') {''C2''}
       = Some (Inr (VArr [VNum (Fin 1), VNum (Fin 2), VNum (Fin 3), VNum (Fin 4)]), {''C2''})
   \<and> evaluateCell h 3 squareSheet ''C1'' = Some \<lparr> resultValue = VNum (Fin 0), error = None \<rparr>
   \<and> evaluateCell h 3 squareSheet ''C2'' = Some \<lparr> resultValue = VNum (Fin 10), error = None \<rparr>
   \<and> getCellsInRange ''B2'' ''A1'' = Inr [''A1'', ''A2'', ''B1'', ''B2'']
   \<and> getCellsInRange ''A1'' ''B2'' = Inr [''A1'', ''A2'', ''B1'', ''B2'']"
  by code_simp

section \<open>Parser\<close>

subsection \<open>Progress of the lexer and of the parser\<close>

lemma scanNumber_le: "scanNumber xs b \<le> length xs"
  by (induction xs arbitrary: b) auto

lemma scanString_bound: "scanString xs k0 = Some k \<Longrightarrow> k0 \<le> k \<and> k - k0 < length xs"
proof (induction xs k0 rule: scanString.induct)
  case (1 k)
  then show ?case by simp
next
  case (2 c cs k0)
  show ?case
  proof (cases "c = CHR 0x22")
    case True
    then show ?thesis using 2 by simp
  next
    case nq: False
    show ?thesis
    proof (cases "c = CHR 0x5C")
      case True
      show ?thesis
      proof (cases cs)
        case Nil
        then show ?thesis using 2 nq True by simp
      next
        case (Cons c' cs')
        then have "scanString cs' (k0 + 2) = Some k" using 2(3) nq True by simp
        from "2.IH"(1)[OF nq True Cons this] show ?thesis using Cons by auto
      qed
    next
      case False
      then have "scanString cs (k0 + 1) = Some k" using 2(3) nq by simp
      from "2.IH"(2)[OF nq False this] show ?thesis by auto
    qed
  qed
qed

lemma skipWhitespace_props:
  "lexInput (skipWhitespace l) = lexInput l"
  "lexPos l \<le> lexPos (skipWhitespace l)"
  "remaining (skipWhitespace l) \<le> remaining l"
  by (simp_all add: skipWhitespace_def remaining_def)

lemma takeWhile_drop_le: "i + length (takeWhile P (drop i xs)) \<le> max i (length xs)"
proof -
  have "length (takeWhile P (drop i xs)) \<le> length (drop i xs)" by (rule length_takeWhile_le)
  then show ?thesis by simp
qed

lemma nextToken_progress:
  assumes "nextToken l = Inr (t, l')"
  shows "lexInput l' = lexInput l
         \<and> remaining l' \<le> remaining l
         \<and> (tokType t \<noteq> EOF \<longrightarrow> remaining l' < remaining l)"
proof -
  define s where "s = skipWhitespace l"
  define char where "char = lexInput s ! lexPos s"
  define numStart where
    "numStart \<longleftrightarrow> isDigit char \<or> (char = CHR ''.'' \<and> (case peek s 1 of Some d \<Rightarrow> isDigit d | None \<Rightarrow> False))"
  define rest where "rest =
     (if char = CHR ''('' then single s LPAREN ''(''
      else if char = CHR '')'' then single s RPAREN '')''
      else if char = CHR '','' then single s COMMA '',''
      else if char = CHR '':'' then single s COLON '':''
      else if char \<in> {CHR ''+'', CHR ''-'', CHR ''*'', CHR ''/'', CHR ''^''} then single s OPERATOR [char]
      else if char = CHR ''='' then single s OPERATOR ''=''
      else if char = CHR ''<'' then
        (if peek s 1 = Some CHR ''='' then single s OPERATOR ''<=''
         else if peek s 1 = Some CHR ''>'' then single s OPERATOR ''<>''
         else single s OPERATOR ''<'')
      else if char = CHR ''>'' then
        (if peek s 1 = Some CHR ''='' then single s OPERATOR ''>=''
         else single s OPERATOR ''>'')
      else Inl (''Unexpected character: '' @ [char] @ '' at position ''
                  @ numToString (int (lexPos s))))"
  have nt: "nextToken l =
     (if lexPos s \<ge> length (lexInput s)
      then Inr (\<lparr> tokType = EOF, tokValue = [], tokPos = lexPos s \<rparr>, s)
      else if numStart then Inr (readNumber s)
      else if char = CHR 0x22 then readString s
      else if isLetter char then Inr (readIdentifier s)
      else rest)"
    unfolding nextToken_def Let_def s_def char_def numStart_def rest_def by (rule refl)
  have s: "lexInput s = lexInput l" "remaining s \<le> remaining l"
    by (simp_all add: s_def skipWhitespace_props)
  show ?thesis
  proof (cases "lexPos s \<ge> length (lexInput s)")
    case True
    then have "tokType t = EOF" "l' = s"
      using assms by (auto simp: nt)
    then show ?thesis using s by simp
  next
    case False
    then have lt: "lexPos s < length (lexInput s)" by simp
    have hd: "drop (lexPos s) (lexInput s) = char # drop (Suc (lexPos s)) (lexInput s)"
      using lt by (simp add: char_def Cons_nth_drop_Suc)
    have single: "\<And>ty v. single s ty v = Inr (t, l') \<Longrightarrow> 0 < length v
          \<Longrightarrow> lexPos s + length v \<le> length (lexInput s)
          \<Longrightarrow> lexInput l' = lexInput s \<and> remaining l' < remaining s"
    proof -
      fix ty v
      assume a: "single s ty v = Inr (t, l')" "0 < length v"
        "lexPos s + length v \<le> length (lexInput s)"
      then have l': "l' = s\<lparr> lexPos := lexPos s + length v \<rparr>" by (auto simp: single_def)
      have "length (lexInput s) - (lexPos s + length v) < length (lexInput s) - lexPos s"
        using a(2,3) lt by linarith
      then show "lexInput l' = lexInput s \<and> remaining l' < remaining s"
        by (simp add: l' remaining_def)
    qed
    have two: "\<And>c. peek s 1 = Some c \<Longrightarrow> lexPos s + 2 \<le> length (lexInput s)"
      by (auto simp: peek_def split: if_splits)
    have one: "lexPos s + 1 \<le> length (lexInput s)" using lt by simp
    have "lexInput l' = lexInput s \<and> remaining l' < remaining s"
    proof (cases numStart)
      case True
      then have r: "readNumber s = (t, l')"
        using assms False by (simp add: nt)
      have "0 < scanNumber (drop (lexPos s) (lexInput s)) False"
        using True by (auto simp: hd numStart_def)
      moreover have "scanNumber (drop (lexPos s) (lexInput s)) False \<le> length (lexInput s) - lexPos s"
        using scanNumber_le[of "drop (lexPos s) (lexInput s)" False] by simp
      ultimately show ?thesis using r lt
        by (auto simp: readNumber_def Let_def remaining_def)
    next
      case nd: False
      show ?thesis
      proof (cases "char = CHR 0x22")
        case True
        then have r: "readString s = Inr (t, l')"
          using assms False nd by (simp add: nt)
        then obtain k where k: "scanString (drop (lexPos s + 1) (lexInput s)) 0 = Some k"
          and l': "l' = s\<lparr> lexPos := lexPos s + 1 + k + 1 \<rparr>"
          by (auto simp: readString_def Let_def split: option.splits)
        from scanString_bound[OF k] have "k < length (lexInput s) - (lexPos s + 1)" by simp
        then show ?thesis using l' lt by (auto simp: remaining_def)
      next
        case nq: False
        show ?thesis
        proof (cases "isLetter char")
          case True
          then have r: "readIdentifier s = (t, l')"
            using assms False nd nq by (simp add: nt)
          have "lexPos s + 1 + length (takeWhile (\<lambda>c. isAlphaNumeric c \<or> c = CHR ''$'')
                    (drop (lexPos s + 1) (lexInput s))) \<le> length (lexInput s)"
            using takeWhile_drop_le[of "lexPos s + 1" "\<lambda>c. isAlphaNumeric c \<or> c = CHR ''$''" "lexInput s"] lt
            by simp
          then show ?thesis using r lt by (auto simp: readIdentifier_def Let_def remaining_def)
        next
          case nl: False
          from assms False nd nq nl have "rest = Inr (t, l')" by (simp add: nt)
          then show ?thesis
            unfolding rest_def using single one two
            by (auto split: if_splits)
        qed
      qed
    qed
    then show ?thesis using s by auto
  qed
qed

lemma advance_tokensLeft:
  assumes "advance p = Inr p'"
  shows "tokensLeft p' \<le> remaining (parserLexer p)"
proof -
  from assms obtain t l where n: "nextToken (parserLexer p) = Inr (t, l)"
    and p': "p' = \<lparr> parserLexer = l, current = t \<rparr>"
    by (auto simp: advance_def split: sum.splits)
  from nextToken_progress[OF n] show ?thesis
    by (auto simp: tokensLeft_def p')
qed

lemma advance_less:
  "advance p = Inr p' \<Longrightarrow> tokType (current p) \<noteq> EOF \<Longrightarrow> tokensLeft p' < tokensLeft p"
  using advance_tokensLeft[of p p'] by (simp add: tokensLeft_def)

lemma advance_le: "advance p = Inr p' \<Longrightarrow> tokensLeft p' \<le> tokensLeft p"
  using advance_tokensLeft[of p p'] by (simp add: tokensLeft_def)

lemma expect_less:
  "expect p t = Inr p' \<Longrightarrow> t \<noteq> EOF \<Longrightarrow> tokensLeft p' < tokensLeft p"
  by (auto simp: expect_def split: if_splits intro: advance_less)

lemma parser_progress:
  "parseExpression n mp p = Some (Inr (e, p')) \<Longrightarrow> tokensLeft p' < tokensLeft p"
  "parseOperators n mp left p = Some (Inr (e, p')) \<Longrightarrow> tokensLeft p' \<le> tokensLeft p"
  "parsePrimary n p = Some (Inr (e, p')) \<Longrightarrow> tokensLeft p' < tokensLeft p"
  "parseArguments n args p = Some (Inr (es, p')) \<Longrightarrow> tokensLeft p' \<le> tokensLeft p"
proof (induction n arbitrary: mp p e p' left args es)
  case 0
  {
    case 1 then show ?case by simp
  next
    case 2 then show ?case by simp
  next
    case 3 then show ?case by simp
  next
    case 4 then show ?case by simp
  }
next
  case (Suc n)
  note ih = Suc
  {
    case 1
    then obtain l q where a: "parsePrimary n p = Some (Inr (l, q))"
      and b: "parseOperators n mp l q = Some (Inr (e, p'))"
      by (auto split: option.splits sum.splits prod.splits)
    from ih(3)[OF a] ih(2)[OF b] show ?case by simp
  next
    case 2
    show ?case
    proof (cases "tokType (current p) = OPERATOR")
      case False
      then show ?thesis using 2 by simp
    next
      case True
      show ?thesis
      proof (cases "PRECEDENCE (tokValue (current p))")
        case None
        then show ?thesis using 2 True by simp
      next
        case (Some precedence)
        show ?thesis
        proof (cases "precedence = 0 \<or> precedence < mp")
          case True
          then show ?thesis using 2 \<open>tokType (current p) = OPERATOR\<close> Some by auto
        next
          case False
          with 2 True Some obtain p1 r p2 where
            a: "advance p = Inr p1"
            and b: "parseExpression n (precedence + 1) p1 = Some (Inr (r, p2))"
            and c: "parseOperators n mp (BinaryOp (tokValue (current p)) left r) p2 = Some (Inr (e, p'))"
            by (auto split: option.splits sum.splits prod.splits)
          from advance_le[OF a] ih(1)[OF b] ih(2)[OF c] show ?thesis by simp
        qed
      qed
    qed
  next
    case 3
    note pp = 3
    have adv: "\<And>q q'. advance q = Inr q' \<Longrightarrow> tokType (current q) \<noteq> EOF \<Longrightarrow> tokensLeft q' < tokensLeft q"
      by (rule advance_less)
    have adv': "\<And>q q'. advance q = Inr q' \<Longrightarrow> tokensLeft q' \<le> tokensLeft q"
      by (rule advance_le)
    have exp: "\<And>q q' t. expect q t = Inr q' \<Longrightarrow> t \<noteq> EOF \<Longrightarrow> tokensLeft q' < tokensLeft q"
      by (rule expect_less)
    show ?case
    proof (cases "tokType (current p)")
      case NUMBER
      with pp show ?thesis by (auto split: sum.splits dest: adv)
    next
      case STRING
      with pp show ?thesis by (auto split: sum.splits dest: adv)
    next
      case CELL_REF
      from pp CELL_REF obtain p1 where p1: "advance p = Inr p1"
        by (auto simp: Let_def split: sum.splits)
      have l1: "tokensLeft p1 < tokensLeft p" using adv[OF p1] CELL_REF by simp
      show ?thesis
      proof (cases "tokType (current p1) = COLON")
        case False
        with pp CELL_REF p1 have "p' = p1" by (auto simp: Let_def split: sum.splits)
        then show ?thesis using l1 by simp
      next
        case True
        with pp CELL_REF p1 obtain p2 where p2: "advance p1 = Inr p2" "advance p2 = Inr p'"
          by (auto simp: Let_def split: sum.splits if_splits)
        from adv'[OF p2(1)] adv'[OF p2(2)] l1 show ?thesis by simp
      qed
    next
      case RANGE
      with pp show ?thesis by simp
    next
      case FUNCTION
      from pp FUNCTION obtain p1 p2 where p1: "advance p = Inr p1" "expect p1 LPAREN = Inr p2"
        by (auto simp: Let_def split: sum.splits)
      have l2: "tokensLeft p2 < tokensLeft p"
        using adv[OF p1(1)] exp[OF p1(2)] FUNCTION by simp
      show ?thesis
      proof (cases "tokType (current p2) \<noteq> RPAREN")
        case False
        with pp FUNCTION p1 have "expect p2 RPAREN = Inr p'"
          by (auto simp: Let_def split: sum.splits)
        from exp[OF this] l2 show ?thesis by simp
      next
        case True
        with pp FUNCTION p1 obtain arg p3 args p4 where
          a: "parseExpression n 0 p2 = Some (Inr (arg, p3))"
          and b: "parseArguments n [arg] p3 = Some (Inr (args, p4))"
          and c: "expect p4 RPAREN = Inr p'"
          by (auto simp: Let_def split: sum.splits option.splits prod.splits)
        from ih(1)[OF a] ih(4)[OF b] exp[OF c] l2 show ?thesis by simp
      qed
    next
      case OPERATOR
      with pp obtain p1 operand where p1: "advance p = Inr p1"
        and o: "parsePrimary n p1 = Some (Inr (operand, p'))"
        by (auto split: sum.splits option.splits prod.splits if_splits)
      from adv'[OF p1] ih(3)[OF o] show ?thesis by simp
    next
      case LPAREN
      with pp obtain p1 expr p2 where p1: "advance p = Inr p1"
        and x: "parseExpression n 0 p1 = Some (Inr (expr, p2))"
        and c: "expect p2 RPAREN = Inr p'"
        by (auto split: sum.splits option.splits prod.splits)
      from adv'[OF p1] ih(1)[OF x] exp[OF c] show ?thesis by simp
    next
      case RPAREN
      with pp show ?thesis by simp
    next
      case COMMA
      with pp show ?thesis by simp
    next
      case COLON
      with pp show ?thesis by simp
    next
      case EOF
      with pp show ?thesis by simp
    qed
  next
    case 4
    show ?case
    proof (cases "tokType (current p) = COMMA")
      case False
      then show ?thesis using 4 by simp
    next
      case True
      with 4 obtain p1 arg p2 where
        a: "advance p = Inr p1"
        and b: "parseExpression n 0 p1 = Some (Inr (arg, p2))"
        and c: "parseArguments n (args @ [arg]) p2 = Some (Inr (es, p'))"
        by (auto split: option.splits sum.splits prod.splits)
      from advance_le[OF a] ih(1)[OF b] ih(4)[OF c] show ?thesis by simp
    qed
  }
qed

subsection \<open>Enough fuel: every parse returns\<close>

lemma parser_defined_step:
  assumes ih: "\<And>q m mp left args. tokensLeft q < tokensLeft p \<Longrightarrow>
      (2 * tokensLeft q + 2 \<le> m \<longrightarrow> parseExpression m mp q \<noteq> None)
    \<and> (2 * tokensLeft q + 1 \<le> m \<longrightarrow> parseOperators m mp left q \<noteq> None)
    \<and> (2 * tokensLeft q + 1 \<le> m \<longrightarrow> parsePrimary m q \<noteq> None)
    \<and> (2 * tokensLeft q + 1 \<le> m \<longrightarrow> parseArguments m args q \<noteq> None)"
  shows "(2 * tokensLeft p + 2 \<le> m \<longrightarrow> parseExpression m mp p \<noteq> None)
    \<and> (2 * tokensLeft p + 1 \<le> m \<longrightarrow> parseOperators m mp left p \<noteq> None)
    \<and> (2 * tokensLeft p + 1 \<le> m \<longrightarrow> parsePrimary m p \<noteq> None)
    \<and> (2 * tokensLeft p + 1 \<le> m \<longrightarrow> parseArguments m args p \<noteq> None)"
proof -
  have ihE: "\<And>q k mp. tokensLeft q < tokensLeft p \<Longrightarrow> 2 * tokensLeft p \<le> k \<Longrightarrow> parseExpression k mp q \<noteq> None"
  proof -
    fix q k mp assume a: "tokensLeft q < tokensLeft p" "2 * tokensLeft p \<le> k"
    then have "2 * tokensLeft q + 2 \<le> k" by simp
    then show "parseExpression k mp q \<noteq> None" using ih[OF a(1)] by blast
  qed
  have ihO: "\<And>q k mp left. tokensLeft q < tokensLeft p \<Longrightarrow> 2 * tokensLeft p \<le> k \<Longrightarrow> parseOperators k mp left q \<noteq> None"
  proof -
    fix q k mp left assume a: "tokensLeft q < tokensLeft p" "2 * tokensLeft p \<le> k"
    then have "2 * tokensLeft q + 1 \<le> k" by simp
    then show "parseOperators k mp left q \<noteq> None" using ih[OF a(1)] by blast
  qed
  have ihP: "\<And>q k. tokensLeft q < tokensLeft p \<Longrightarrow> 2 * tokensLeft p \<le> k \<Longrightarrow> parsePrimary k q \<noteq> None"
  proof -
    fix q k assume a: "tokensLeft q < tokensLeft p" "2 * tokensLeft p \<le> k"
    then have "2 * tokensLeft q + 1 \<le> k" by simp
    then show "parsePrimary k q \<noteq> None" using ih[OF a(1)] by blast
  qed
  have ihA: "\<And>q k args. tokensLeft q < tokensLeft p \<Longrightarrow> 2 * tokensLeft p \<le> k \<Longrightarrow> parseArguments k args q \<noteq> None"
  proof -
    fix q k args assume a: "tokensLeft q < tokensLeft p" "2 * tokensLeft p \<le> k"
    then have "2 * tokensLeft q + 1 \<le> k" by simp
    then show "parseArguments k args q \<noteq> None" using ih[OF a(1)] by blast
  qed
  have C: "parsePrimary (Suc n) q \<noteq> None" if n: "2 * tokensLeft p \<le> n" and q: "tokensLeft q \<le> tokensLeft p"
    and sub: "\<And>q' k. tokensLeft q' < tokensLeft q \<Longrightarrow> 2 * tokensLeft p \<le> k \<Longrightarrow>
       parseExpression k 0 q' \<noteq> None \<and> parsePrimary k q' \<noteq> None \<and> (\<forall>args. parseArguments k args q' \<noteq> None)"
    for n q
  proof (cases "tokType (current q)")
    case NUMBER
    then show ?thesis by (simp split: sum.splits)
  next
    case STRING
    then show ?thesis by (simp split: sum.splits)
  next
    case CELL_REF
    then show ?thesis by (simp add: Let_def split: sum.splits)
  next
    case RANGE
    then show ?thesis by simp
  next
    case FUNCTION
    show ?thesis
    proof (cases "advance q")
      case (Inl e)
      then show ?thesis using FUNCTION by (simp add: Let_def)
    next
      case p1: (Inr p1)
      show ?thesis
      proof (cases "expect p1 LPAREN")
        case (Inl e)
        then show ?thesis using FUNCTION p1 by (simp add: Let_def)
      next
        case p2: (Inr p2)
        have l2: "tokensLeft p2 < tokensLeft q"
          using advance_less[OF p1] expect_less[OF p2] FUNCTION by simp
        show ?thesis
        proof (cases "tokType (current p2) \<noteq> RPAREN")
          case False
          then show ?thesis using FUNCTION p1 p2 by (simp add: Let_def split: sum.splits)
        next
          case True
          from sub[OF l2 n] obtain x where x: "parseExpression n 0 p2 = Some x" by auto
          show ?thesis
          proof (cases x)
            case (Inl e)
            then show ?thesis using FUNCTION p1 p2 True x by (simp add: Let_def)
          next
            case (Inr y)
            obtain arg p3 where y: "y = (arg, p3)" by (cases y)
            have l3: "tokensLeft p3 < tokensLeft q"
              using parser_progress(1)[of n 0 p2 arg p3] x Inr y l2 by simp
            from sub[OF l3 n] obtain z where z: "parseArguments n [arg] p3 = Some z" by auto
            show ?thesis using FUNCTION p1 p2 True x Inr y z
              by (simp add: Let_def split: sum.splits prod.splits)
          qed
        qed
      qed
    qed
  next
    case OPERATOR
    show ?thesis
    proof (cases "advance q")
      case (Inl e)
      then show ?thesis using OPERATOR by simp
    next
      case p1: (Inr p1)
      have "tokensLeft p1 < tokensLeft q" using advance_less[OF p1] OPERATOR by simp
      from sub[OF this n] obtain x where "parsePrimary n p1 = Some x" by auto
      then show ?thesis using OPERATOR p1 by (simp split: sum.splits prod.splits)
    qed
  next
    case LPAREN
    show ?thesis
    proof (cases "advance q")
      case (Inl e)
      then show ?thesis using LPAREN by simp
    next
      case p1: (Inr p1)
      have "tokensLeft p1 < tokensLeft q" using advance_less[OF p1] LPAREN by simp
      from sub[OF this n] obtain x where "parseExpression n 0 p1 = Some x" by auto
      then show ?thesis using LPAREN p1 by (simp split: sum.splits prod.splits)
    qed
  next
    case RPAREN
    then show ?thesis by simp
  next
    case COMMA
    then show ?thesis by simp
  next
    case COLON
    then show ?thesis by simp
  next
    case EOF
    then show ?thesis by simp
  qed
  have subp: "\<And>q' k. tokensLeft q' < tokensLeft p \<Longrightarrow> 2 * tokensLeft p \<le> k \<Longrightarrow>
       parseExpression k 0 q' \<noteq> None \<and> parsePrimary k q' \<noteq> None \<and> (\<forall>args. parseArguments k args q' \<noteq> None)"
    using ihE ihP ihA by blast
  have Cp: "parsePrimary m p \<noteq> None" if "2 * tokensLeft p + 1 \<le> m" for m
  proof -
    from that obtain n where n: "m = Suc n" "2 * tokensLeft p \<le> n" by (cases m) auto
    show ?thesis unfolding n(1) by (rule C[OF n(2) le_refl subp])
  qed
  have Bp: "parseOperators m mp left p \<noteq> None" if "2 * tokensLeft p + 1 \<le> m" for m mp left
  proof -
    from that obtain n where n: "m = Suc n" "2 * tokensLeft p \<le> n" by (cases m) auto
    show ?thesis
    proof (cases "tokType (current p) = OPERATOR")
      case False
      then show ?thesis by (simp add: n)
    next
      case True
      show ?thesis
      proof (cases "advance p")
        case (Inl e)
        then show ?thesis using True by (simp add: n split: option.splits)
      next
        case p1: (Inr p1)
        have l1: "tokensLeft p1 < tokensLeft p" using advance_less[OF p1] True by simp
        have "parseOperators (Suc n) mp left p \<noteq> None"
        proof (cases "PRECEDENCE (tokValue (current p))")
          case None
          then show ?thesis using True by simp
        next
          case (Some precedence)
          from ihE[OF l1 n(2)] obtain x where x: "parseExpression n (precedence + 1) p1 = Some x" by auto
          show ?thesis
          proof (cases x)
            case (Inl e)
            then show ?thesis using True Some p1 x by simp
          next
            case (Inr y)
            obtain r p2 where y: "y = (r, p2)" by (cases y)
            have "tokensLeft p2 < tokensLeft p"
              using parser_progress(1)[of n "precedence + 1" p1 r p2] x Inr y l1 by simp
            from ihO[OF this n(2)] obtain z where
              "parseOperators n mp (BinaryOp (tokValue (current p)) left r) p2 = Some z" by auto
            then show ?thesis using True Some p1 x Inr y by simp
          qed
        qed
        then show ?thesis unfolding n(1) .
      qed
    qed
  qed
  have Dp: "parseArguments m args p \<noteq> None" if "2 * tokensLeft p + 1 \<le> m" for m args
  proof -
    from that obtain n where n: "m = Suc n" "2 * tokensLeft p \<le> n" by (cases m) auto
    show ?thesis
    proof (cases "tokType (current p) = COMMA")
      case False
      then show ?thesis by (simp add: n)
    next
      case True
      show ?thesis
      proof (cases "advance p")
        case (Inl e)
        then show ?thesis using True by (simp add: n)
      next
        case p1: (Inr p1)
        have l1: "tokensLeft p1 < tokensLeft p" using advance_less[OF p1] True by simp
        from ihE[OF l1 n(2)] obtain x where x: "parseExpression n 0 p1 = Some x" by auto
        show ?thesis
        proof (cases x)
          case (Inl e)
          then show ?thesis using True p1 x by (simp add: n)
        next
          case (Inr y)
          obtain arg p2 where y: "y = (arg, p2)" by (cases y)
          have "tokensLeft p2 < tokensLeft p"
            using parser_progress(1)[of n 0 p1 arg p2] x Inr y l1 by simp
          from ihA[OF this n(2)] obtain z where "parseArguments n (args @ [arg]) p2 = Some z" by auto
          then show ?thesis using True p1 x Inr y by (simp add: n)
        qed
      qed
    qed
  qed
  have Ap: "parseExpression m mp p \<noteq> None" if "2 * tokensLeft p + 2 \<le> m" for m mp
  proof -
    from that obtain n where n: "m = Suc n" "2 * tokensLeft p + 1 \<le> n" by (cases m) auto
    from Cp[OF n(2)] obtain x where x: "parsePrimary n p = Some x" by auto
    show ?thesis
    proof (cases x)
      case (Inl e)
      then show ?thesis using x by (simp add: n)
    next
      case (Inr y)
      obtain l q where y: "y = (l, q)" by (cases y)
      have lq: "tokensLeft q < tokensLeft p" using parser_progress(3)[of n p l q] x Inr y by simp
      have "2 * tokensLeft p \<le> n" using n(2) by simp
      from ihO[OF lq this] obtain z where "parseOperators n mp l q = Some z" by auto
      then show ?thesis using x Inr y by (simp add: n)
    qed
  qed
  show ?thesis using Ap Bp Cp Dp by blast
qed

lemma parser_defined:
  "(2 * tokensLeft p + 2 \<le> m \<longrightarrow> parseExpression m mp p \<noteq> None)
    \<and> (2 * tokensLeft p + 1 \<le> m \<longrightarrow> parseOperators m mp left p \<noteq> None)
    \<and> (2 * tokensLeft p + 1 \<le> m \<longrightarrow> parsePrimary m p \<noteq> None)
    \<and> (2 * tokensLeft p + 1 \<le> m \<longrightarrow> parseArguments m args p \<noteq> None)"
proof (induction "tokensLeft p" arbitrary: p m mp left args rule: less_induct)
  case less
  show ?case by (rule parser_defined_step) (rule less)
qed

lemma parseFormula_defined: "\<exists>n. \<forall>m\<ge>n. parseFormula m inp \<noteq> None"
proof (cases "newParser (if startsWith inp ''='' then drop 1 inp else inp)")
  case (Inl e)
  then show ?thesis by (simp add: parseFormula_def)
next
  case (Inr p)
  have "parseFormula m inp \<noteq> None" if "2 * tokensLeft p + 2 \<le> m" for m
  proof -
    from parser_defined[of p m 0] that obtain x where "parseExpression m 0 p = Some x" by auto
    then show ?thesis using Inr
      by (auto simp: parseFormula_def parse_def split: sum.splits prod.splits)
  qed
  then show ?thesis by blast
qed

subsection \<open>More fuel never changes a parse\<close>

lemma parseExpression_unfold:
  "parseExpression (Suc k) mp p =
     (case parsePrimary k p of
        None \<Rightarrow> None
      | Some (Inl e) \<Rightarrow> Some (Inl e)
      | Some (Inr (left, p')) \<Rightarrow> parseOperators k mp left p')"
  by simp

lemma parseOperators_unfold:
  "parseOperators (Suc k) mp left p =
     (if tokType (current p) = OPERATOR
      then (case PRECEDENCE (tokValue (current p)) of
              None \<Rightarrow> Some (Inr (left, p))
            | Some precedence \<Rightarrow>
                if precedence = 0 \<or> precedence < mp then Some (Inr (left, p))
                else (case advance p of
                        Inl e \<Rightarrow> Some (Inl e)
                      | Inr p1 \<Rightarrow>
                          (case parseExpression k (precedence + 1) p1 of
                             None \<Rightarrow> None
                           | Some (Inl e) \<Rightarrow> Some (Inl e)
                           | Some (Inr (right, p2)) \<Rightarrow>
                               parseOperators k mp
                                 (BinaryOp (tokValue (current p)) left right) p2)))
      else Some (Inr (left, p)))"
  by simp

lemma parseArguments_unfold:
  "parseArguments (Suc k) args p =
     (if tokType (current p) = COMMA
      then (case advance p of
              Inl e \<Rightarrow> Some (Inl e)
            | Inr p1 \<Rightarrow>
                (case parseExpression k 0 p1 of
                   None \<Rightarrow> None
                 | Some (Inl e) \<Rightarrow> Some (Inl e)
                 | Some (Inr (arg, p2)) \<Rightarrow> parseArguments k (args @ [arg]) p2))
      else Some (Inr (args, p)))"
  by simp

lemma parsePrimary_FUNCTION:
  "tokType (current p) = FUNCTION \<Longrightarrow> parsePrimary (Suc k) p =
     (case advance p of
        Inl e \<Rightarrow> Some (Inl e)
      | Inr p1 \<Rightarrow>
          (case expect p1 LPAREN of
             Inl e \<Rightarrow> Some (Inl e)
           | Inr p2 \<Rightarrow>
               (case (if tokType (current p2) \<noteq> RPAREN
                      then (case parseExpression k 0 p2 of
                              None \<Rightarrow> None
                            | Some (Inl e) \<Rightarrow> Some (Inl e)
                            | Some (Inr (arg, p3)) \<Rightarrow> parseArguments k [arg] p3)
                      else Some (Inr ([], p2))) of
                  None \<Rightarrow> None
                | Some (Inl e) \<Rightarrow> Some (Inl e)
                | Some (Inr (args, p4)) \<Rightarrow>
                    (case expect p4 RPAREN of
                       Inl e \<Rightarrow> Some (Inl e)
                     | Inr p5 \<Rightarrow> Some (Inr (FunctionCall (tokValue (current p)) args, p5))))))"
  by (simp add: Let_def)

lemma parsePrimary_LPAREN:
  "tokType (current p) = LPAREN \<Longrightarrow> parsePrimary (Suc k) p =
     (case advance p of
        Inl e \<Rightarrow> Some (Inl e)
      | Inr p1 \<Rightarrow>
          (case parseExpression k 0 p1 of
             None \<Rightarrow> None
           | Some (Inl e) \<Rightarrow> Some (Inl e)
           | Some (Inr (expr, p2)) \<Rightarrow>
               (case expect p2 RPAREN of
                  Inl e \<Rightarrow> Some (Inl e)
                | Inr p3 \<Rightarrow> Some (Inr (expr, p3)))))"
  by simp

lemma parsePrimary_OPERATOR:
  "tokType (current p) = OPERATOR \<Longrightarrow> parsePrimary (Suc k) p =
     (if tokValue (current p) = ''-'' \<or> tokValue (current p) = ''+''
      then (case advance p of
              Inl e \<Rightarrow> Some (Inl e)
            | Inr p1 \<Rightarrow>
                (case parsePrimary k p1 of
                   None \<Rightarrow> None
                 | Some (Inl e) \<Rightarrow> Some (Inl e)
                 | Some (Inr (operand, p2)) \<Rightarrow>
                     Some (Inr (UnaryOp (tokValue (current p)) operand, p2))))
      else Some (Inl (''Unexpected operator: '' @ tokValue (current p))))"
  by simp

lemma parsePrimary_leaf:
  "tokType (current p) \<notin> {FUNCTION, LPAREN, OPERATOR} \<Longrightarrow>
   parsePrimary (Suc k) p = parsePrimary (Suc 0) p"
  by (cases "tokType (current p)") simp_all

lemmas parser_simps =
  parseExpression.simps parseOperators.simps parsePrimary.simps parseArguments.simps

lemma parser_more_fuel_Suc:
  "parseExpression n mp p = Some r \<Longrightarrow> parseExpression (Suc n) mp p = Some r"
  "parseOperators n mp left p = Some r \<Longrightarrow> parseOperators (Suc n) mp left p = Some r"
  "parsePrimary n p = Some r \<Longrightarrow> parsePrimary (Suc n) p = Some r"
  "parseArguments n args p = Some rs \<Longrightarrow> parseArguments (Suc n) args p = Some rs"
proof (induction n arbitrary: mp p r left args rs)
  case 0
  {
    case 1 then show ?case by simp
  next
    case 2 then show ?case by simp
  next
    case 3 then show ?case by simp
  next
    case 4 then show ?case by simp
  }
next
  case (Suc n)
  note ih = Suc
  {
    case 1
    from 1 obtain x where x: "parsePrimary n p = Some x"
      by (auto split: option.splits)
    have x': "parsePrimary (Suc n) p = Some x" by (rule ih(3)[OF x])
    show ?case
    proof (cases x)
      case (Inl e)
      then show ?thesis using 1 x x'
        by (auto simp add: parseExpression_unfold simp del: parser_simps)
    next
      case (Inr y)
      obtain l q where y: "y = (l, q)" by (cases y)
      have "parseOperators n mp l q = Some r" using 1 x Inr y by simp
      from ih(2)[OF this] show ?thesis using x' Inr y
        by (auto simp add: parseExpression_unfold simp del: parser_simps)
    qed
  next
    case 2
    note pp = 2[unfolded parseOperators_unfold]
    show ?case
    proof (cases "tokType (current p) = OPERATOR")
      case False
      then show ?thesis using pp by (auto simp add: parseOperators_unfold simp del: parser_simps)
    next
      case True
      show ?thesis
      proof (cases "PRECEDENCE (tokValue (current p))")
        case None
        then show ?thesis using pp True by (auto simp add: parseOperators_unfold simp del: parser_simps)
      next
        case (Some precedence)
        show ?thesis
        proof (cases "precedence = 0 \<or> precedence < mp")
          case True
          then show ?thesis using pp \<open>tokType (current p) = OPERATOR\<close> Some
            by (auto simp add: parseOperators_unfold simp del: parser_simps)
        next
          case False
          show ?thesis
          proof (cases "advance p")
            case (Inl e)
            then show ?thesis using pp True Some False
              by (auto simp add: parseOperators_unfold simp del: parser_simps)
          next
            case p1: (Inr p1)
            from pp True Some False p1 obtain x where
              x: "parseExpression n (precedence + 1) p1 = Some x"
              by (auto simp del: parser_simps split: option.splits)
            have x': "parseExpression (Suc n) (precedence + 1) p1 = Some x" by (rule ih(1)[OF x])
            show ?thesis
            proof (cases x)
              case (Inl e)
              then show ?thesis using pp True Some False p1 x x'
                by (auto simp add: parseOperators_unfold[of "Suc n"] simp del: parser_simps)
            next
              case (Inr y)
              obtain rt p2 where y: "y = (rt, p2)" by (cases y)
              have "parseOperators n mp (BinaryOp (tokValue (current p)) left rt) p2 = Some r"
                using pp True Some False p1 x Inr y by (auto simp del: parser_simps)
              from ih(2)[OF this] show ?thesis using True Some False p1 x' Inr y
                by (auto simp add: parseOperators_unfold[of "Suc n"] simp del: parser_simps)
            qed
          qed
        qed
      qed
    qed
  next
    case 3
    show ?case
    proof (cases "tokType (current p) \<in> {FUNCTION, LPAREN, OPERATOR}")
      case False
      then show ?thesis using 3 parsePrimary_leaf[of p "Suc n"] parsePrimary_leaf[of p n]
        by (auto simp del: parser_simps)
    next
      case True
      then consider (f) "tokType (current p) = FUNCTION" | (l) "tokType (current p) = LPAREN"
        | (o) "tokType (current p) = OPERATOR" by auto
      then show ?thesis
      proof cases
        case f
        note pp = 3[unfolded parsePrimary_FUNCTION[OF f]]
        show ?thesis
        proof (cases "advance p")
          case (Inl e)
          then show ?thesis using pp by (auto simp add: parsePrimary_FUNCTION[OF f] simp del: parser_simps)
        next
          case p1: (Inr p1)
          show ?thesis
          proof (cases "expect p1 LPAREN")
            case (Inl e)
            then show ?thesis using pp p1 by (auto simp add: parsePrimary_FUNCTION[OF f] simp del: parser_simps)
          next
            case p2: (Inr p2)
            show ?thesis
            proof (cases "tokType (current p2) \<noteq> RPAREN")
              case False
              then show ?thesis using pp p1 p2
                by (auto simp add: parsePrimary_FUNCTION[OF f] simp del: parser_simps)
            next
              case True
              from pp p1 p2 True obtain x where x: "parseExpression n 0 p2 = Some x"
                by (auto simp del: parser_simps split: option.splits)
              have x': "parseExpression (Suc n) 0 p2 = Some x" by (rule ih(1)[OF x])
              show ?thesis
              proof (cases x)
                case (Inl e)
                then show ?thesis using pp p1 p2 True x x'
                  by (auto simp add: parsePrimary_FUNCTION[OF f] simp del: parser_simps)
              next
                case (Inr y)
                obtain arg p3 where y: "y = (arg, p3)" by (cases y)
                from pp p1 p2 True x Inr y obtain z where z: "parseArguments n [arg] p3 = Some z"
                  by (auto simp del: parser_simps split: option.splits)
                have z': "parseArguments (Suc n) [arg] p3 = Some z" by (rule ih(4)[OF z])
                show ?thesis using pp p1 p2 True x x' Inr y z z'
                  by (auto simp add: parsePrimary_FUNCTION[OF f] simp del: parser_simps)
              qed
            qed
          qed
        qed
      next
        case l
        note pp = 3[unfolded parsePrimary_LPAREN[OF l]]
        show ?thesis
        proof (cases "advance p")
          case (Inl e)
          then show ?thesis using pp by (auto simp add: parsePrimary_LPAREN[OF l] simp del: parser_simps)
        next
          case p1: (Inr p1)
          from pp p1 obtain x where x: "parseExpression n 0 p1 = Some x"
            by (auto simp del: parser_simps split: option.splits)
          have x': "parseExpression (Suc n) 0 p1 = Some x" by (rule ih(1)[OF x])
          show ?thesis using pp p1 x x'
            by (auto simp add: parsePrimary_LPAREN[OF l] simp del: parser_simps)
        qed
      next
        case o
        note pp = 3[unfolded parsePrimary_OPERATOR[OF o]]
        show ?thesis
        proof (cases "tokValue (current p) = ''-'' \<or> tokValue (current p) = ''+''")
          case False
          then show ?thesis using pp by (auto simp add: parsePrimary_OPERATOR[OF o] simp del: parser_simps)
        next
          case True
          show ?thesis
          proof (cases "advance p")
            case (Inl e)
            then show ?thesis using pp True by (auto simp add: parsePrimary_OPERATOR[OF o] simp del: parser_simps)
          next
            case p1: (Inr p1)
            from pp p1 True obtain x where x: "parsePrimary n p1 = Some x"
              by (auto simp del: parser_simps split: option.splits)
            have x': "parsePrimary (Suc n) p1 = Some x" by (rule ih(3)[OF x])
            show ?thesis using pp p1 True x x'
              by (auto simp add: parsePrimary_OPERATOR[OF o] simp del: parser_simps)
          qed
        qed
      qed
    qed
  next
    case 4
    note pp = 4[unfolded parseArguments_unfold]
    show ?case
    proof (cases "tokType (current p) = COMMA")
      case False
      then show ?thesis using pp by (auto simp add: parseArguments_unfold simp del: parser_simps)
    next
      case True
      show ?thesis
      proof (cases "advance p")
        case (Inl e)
        then show ?thesis using pp True by (auto simp add: parseArguments_unfold simp del: parser_simps)
      next
        case p1: (Inr p1)
        from pp True p1 obtain x where x: "parseExpression n 0 p1 = Some x"
          by (auto simp del: parser_simps split: option.splits)
        have x': "parseExpression (Suc n) 0 p1 = Some x" by (rule ih(1)[OF x])
        show ?thesis
        proof (cases x)
          case (Inl e)
          then show ?thesis using pp True p1 x x'
            by (auto simp add: parseArguments_unfold[of "Suc n"] simp del: parser_simps)
        next
          case (Inr y)
          obtain arg p2 where y: "y = (arg, p2)" by (cases y)
          have "parseArguments n (args @ [arg]) p2 = Some rs"
            using pp True p1 x Inr y by (auto simp del: parser_simps)
          from ih(4)[OF this] show ?thesis using True p1 x' Inr y
            by (auto simp add: parseArguments_unfold[of "Suc n"] simp del: parser_simps)
        qed
      qed
    qed
  }
qed

lemma parseExpression_more_fuel:
  assumes "parseExpression n mp p = Some r" and "n \<le> m"
  shows "parseExpression m mp p = Some r"
  using assms(2,1) by (induction m rule: dec_induct) (simp_all add: parser_more_fuel_Suc(1) del: parser_simps)

lemma parseFormula_more_fuel:
  assumes "parseFormula n inp = Some r" and "n \<le> m"
  shows "parseFormula m inp = Some r"
proof (cases "newParser (if startsWith inp ''='' then drop 1 inp else inp)")
  case (Inl e)
  then show ?thesis using assms by (simp add: parseFormula_def)
next
  case (Inr p)
  from assms(1) Inr obtain x where x: "parseExpression n 0 p = Some x"
    by (auto simp: parseFormula_def parse_def split: option.splits)
  have "parseExpression m 0 p = Some x" by (rule parseExpression_more_fuel[OF x assms(2)])
  then show ?thesis using assms(1) Inr x by (simp add: parseFormula_def parse_def)
qed

lemma parseFormula_result: "\<exists>r n. \<forall>m\<ge>n. parseFormula m inp = Some r"
proof -
  from parseFormula_defined[of inp] obtain n where "parseFormula n inp \<noteq> None" by blast
  then obtain r where "parseFormula n inp = Some r" by auto
  then have "\<forall>m\<ge>n. parseFormula m inp = Some r" using parseFormula_more_fuel by blast
  then show ?thesis by blast
qed

subsection \<open>Flags of cell references\<close>

lemma toCellAddress_Inr: "toCellAddress a = Inr b \<Longrightarrow> b = a"
  by (auto simp: toCellAddress_def split: option.splits)

lemma parser_refFlags:
  "parseExpression n mp p = Some (Inr (e, p')) \<Longrightarrow> refFlagsEqual e"
  "refFlagsEqual left \<Longrightarrow> parseOperators n mp left p = Some (Inr (e, p')) \<Longrightarrow> refFlagsEqual e"
  "parsePrimary n p = Some (Inr (e, p')) \<Longrightarrow> refFlagsEqual e"
  "list_all refFlagsEqual args \<Longrightarrow> parseArguments n args p = Some (Inr (es, p')) \<Longrightarrow> list_all refFlagsEqual es"
proof (induction n arbitrary: mp p e p' left args es)
  case 0
  {
    case 1 then show ?case by simp
  next
    case 2 then show ?case by simp
  next
    case 3 then show ?case by simp
  next
    case 4 then show ?case by simp
  }
next
  case (Suc n)
  note ih = Suc
  {
    case 1
    then show ?case
      by (auto split: option.splits sum.splits prod.splits dest: ih(3) intro: ih(2))
  next
    case 2
    have step: "\<And>op right q mp'. parseExpression n mp' q = Some (Inr (right, p2)) \<Longrightarrow>
        parseOperators n mp (BinaryOp op left right) p2 = Some (Inr (e, p')) \<Longrightarrow> refFlagsEqual e"
      for p2
    proof -
      fix op right q mp'
      assume a: "parseExpression n mp' q = Some (Inr (right, p2))"
        and b: "parseOperators n mp (BinaryOp op left right) p2 = Some (Inr (e, p'))"
      have "refFlagsEqual right" using a by (rule ih(1))
      then have "refFlagsEqual (BinaryOp op left right)" using 2(1) by simp
      then show "refFlagsEqual e" using b by (rule ih(2))
    qed
    from 2 show ?case
      by (auto split: option.splits sum.splits prod.splits if_splits dest: step)
  next
    case 3
    have args: "\<And>arg q mp' p3 es p4. parseExpression n mp' q = Some (Inr (arg, p3)) \<Longrightarrow>
        parseArguments n [arg] p3 = Some (Inr (es, p4)) \<Longrightarrow> list_all refFlagsEqual es"
    proof -
      fix arg q mp' p3 es p4
      assume a: "parseExpression n mp' q = Some (Inr (arg, p3))"
        and b: "parseArguments n [arg] p3 = Some (Inr (es, p4))"
      have "refFlagsEqual arg" using a by (rule ih(1))
      then have "list_all refFlagsEqual [arg]" by simp
      then show "list_all refFlagsEqual es" using b by (rule ih(4))
    qed
    from 3 show ?case
      by (auto simp: Let_def dest!: toCellAddress_Inr dest: ih(1) ih(3) args
          split: option.splits sum.splits prod.splits if_splits tokenType.splits)
  next
    case 4
    have step: "\<And>arg q mp'. parseExpression n mp' q = Some (Inr (arg, p2)) \<Longrightarrow>
        parseArguments n (args @ [arg]) p2 = Some (Inr (es, p')) \<Longrightarrow> list_all refFlagsEqual es"
      for p2
    proof -
      fix arg q mp'
      assume a: "parseExpression n mp' q = Some (Inr (arg, p2))"
        and b: "parseArguments n (args @ [arg]) p2 = Some (Inr (es, p'))"
      have "refFlagsEqual arg" using a by (rule ih(1))
      then have "list_all refFlagsEqual (args @ [arg])" using 4(1) by simp
      then show "list_all refFlagsEqual es" using b by (rule ih(4))
    qed
    from 4 show ?case
      by (auto split: option.splits sum.splits prod.splits if_splits dest: step)
  }
qed

lemma parsePrimary_cellRef:
  assumes "tokType (current p) = CELL_REF"
    and "parsePrimary fuel p = Some (Inr (CellRef address absCol absRow, p'))"
  shows "address = tokValue (current p) \<and> absCol = absRow
         \<and> absCol = (CHR ''$'' \<in> set (tokValue (current p)))"
proof -
  from assms(2) obtain n where n: "fuel = Suc n" by (cases fuel) auto
  show ?thesis
    using assms unfolding n
    by (auto simp: Let_def dest!: toCellAddress_Inr split: sum.splits if_splits)
qed

lemma parseFormula_refFlags: "parseFormula fuel inp = Some (Inr ast) \<Longrightarrow> refFlagsEqual ast"
  by (auto simp: parseFormula_def parse_def Let_def dest: parser_refFlags(1)
      split: sum.splits option.splits prod.splits if_splits)

text \<open>
  Claim C10. When the parser's current token is a cell reference and \<open>parsePrimary\<close>
  makes a \<open>ref\<close> node of it, the node's address is the token's text and its two
  \<open>absolute\<close> flags are equal: both are true exactly when the text contains a dollar
  sign. So it is for every \<open>ref\<close> node of every tree that \<open>parseFormula\<close> returns.
  The tokens \<open>A$1\<close> and \<open>$A1\<close> both give a node with both flags set.
\<close>

theorem cellRef_flags_equal:
  "(tokType (current p) = CELL_REF \<and>
      parsePrimary fuel p = Some (Inr (CellRef address absCol absRow, p')) \<longrightarrow>
        address = tokValue (current p) \<and> absCol = absRow
        \<and> absCol = (CHR ''$'' \<in> set (tokValue (current p))))
   \<and> (parseFormula fuel' inp = Some (Inr ast) \<longrightarrow> refFlagsEqual ast)"
  using parsePrimary_cellRef[of p fuel address absCol absRow p'] parseFormula_refFlags[of fuel' inp ast]
  by blast

theorem cellRef_flags_equal_witness:
  "parsePrimary 1 (atCellRef ''$A1'')
     = Some (Inr (CellRef ''$A1'' True True,
                  \<lparr> parserLexer = \<lparr> lexInput = ''$A1'', lexPos = 3 \<rparr>,
                    current = \<lparr> tokType = EOF, tokValue = '''', tokPos = 3 \<rparr> \<rparr>))
   \<and> parsePrimary 1 (atCellRef ''A$1'')
     = Some (Inr (CellRef ''A$1'' True True,
                  \<lparr> parserLexer = \<lparr> lexInput = ''A$1'', lexPos = 3 \<rparr>,
                    current = \<lparr> tokType = EOF, tokValue = '''', tokPos = 3 \<rparr> \<rparr>))
   \<and> parseFormula 4 ''=A$1+B2'' = Some (Inr (BinaryOp ''+'' (CellRef ''A$1'' True True)
                                                 (CellRef ''B2'' False False)))
   \<and> refFlagsEqual (BinaryOp ''+'' (CellRef ''A$1'' True True) (CellRef ''B2'' False False))"
proof -
  have t: "tokType (current (atCellRef ''$A1'')) = CELL_REF" by code_simp
  have a: "parsePrimary 1 (atCellRef ''$A1'')
     = Some (Inr (CellRef ''$A1'' True True,
                  \<lparr> parserLexer = \<lparr> lexInput = ''$A1'', lexPos = 3 \<rparr>,
                    current = \<lparr> tokType = EOF, tokValue = '''', tokPos = 3 \<rparr> \<rparr>))"
    by code_simp
  have b: "parsePrimary 1 (atCellRef ''A$1'')
     = Some (Inr (CellRef ''A$1'' True True,
                  \<lparr> parserLexer = \<lparr> lexInput = ''A$1'', lexPos = 3 \<rparr>,
                    current = \<lparr> tokType = EOF, tokValue = '''', tokPos = 3 \<rparr> \<rparr>))"
    by code_simp
  have f: "parseFormula 4 ''=A$1+B2'' = Some (Inr (BinaryOp ''+'' (CellRef ''A$1'' True True)
                                                 (CellRef ''B2'' False False)))"
    by code_simp
  show ?thesis
    using cellRef_flags_equal [where p = "atCellRef ''$A1''" and fuel = 1 and address = "''$A1''"
        and absCol = True and absRow = True
        and p' = "\<lparr> parserLexer = \<lparr> lexInput = ''$A1'', lexPos = 3 \<rparr>,
           current = \<lparr> tokType = EOF, tokValue = [], tokPos = 3 \<rparr> \<rparr>"
        and fuel' = 4 and inp = "''=A$1+B2''"
        and ast = "BinaryOp ''+'' (CellRef ''A$1'' True True) (CellRef ''B2'' False False)"]
      t a b f
    by simp
qed

end
